theory Spec2Isabelle
  imports Complex_Main "HOL-Library.Log_Nat" "HOL-Library.Char_ord" "HOL-Library.List_Lexorder"
begin

section \<open>Text: characters, whitespace, case\<close>

text \<open>
  A Python \<open>str\<close> is a sequence of code points. The model uses \<open>string\<close>; its 8-bit
  characters are read as the code points U+0000 to U+00FF, and the character classes
  below are the ones CPython uses on that range: \<open>str.isspace\<close> (also the class
  \<^verbatim>\<open>\s\<close> of \<open>re\<close> on \<open>str\<close> patterns and what \<open>strip\<close> and \<open>split\<close> remove),
  \<open>str.isdecimal\<close> (the class \<^verbatim>\<open>\d\<close>), \<open>str.isalnum\<close> or an underscore (the class
  \<^verbatim>\<open>\w\<close>, which decides \<^verbatim>\<open>\b\<close>), and \<open>str.lower\<close>.
\<close>

definition code_point :: "char \<Rightarrow> nat" where
  "code_point c = of_char c"

definition is_space :: "char \<Rightarrow> bool" where
  "is_space c = (let n = code_point c in
     (9 \<le> n \<and> n \<le> 13) \<or> (28 \<le> n \<and> n \<le> 32) \<or> n = 133 \<or> n = 160)"

definition is_decimal :: "char \<Rightarrow> bool" where
  "is_decimal c = (let n = code_point c in 48 \<le> n \<and> n \<le> 57)"

definition ascii_letter :: "char \<Rightarrow> bool" where
  "ascii_letter c = (let n = code_point c in (65 \<le> n \<and> n \<le> 90) \<or> (97 \<le> n \<and> n \<le> 122))"

definition is_alnum :: "char \<Rightarrow> bool" where
  "is_alnum c = (let n = code_point c in
     is_decimal c \<or> ascii_letter c \<or> n = 170 \<or> n = 178 \<or> n = 179 \<or> n = 181 \<or>
     n = 185 \<or> n = 186 \<or> (188 \<le> n \<and> n \<le> 190) \<or>
     (192 \<le> n \<and> n \<noteq> 215 \<and> n \<noteq> 247))"

definition is_word :: "char \<Rightarrow> bool" where
  "is_word c = (is_alnum c \<or> c = CHR ''_'')"

definition lower_chr :: "char \<Rightarrow> char" where
  "lower_chr c = (let n = code_point c in
     if (65 \<le> n \<and> n \<le> 90) \<or> (192 \<le> n \<and> n \<le> 222 \<and> n \<noteq> 215)
     then char_of (n + 32) else c)"

definition lower :: "string \<Rightarrow> string" where
  "lower s = map lower_chr s"

text \<open>\<open>s.strip()\<close>: leading and trailing whitespace removed.\<close>

definition strip :: "string \<Rightarrow> string" where
  "strip s = rev (dropWhile is_space (rev (dropWhile is_space s)))"

text \<open>
  \<^verbatim>\<open>re.sub(r'\s+', ' ', s)\<close>: every maximal run of whitespace is replaced by one
  space. A whitespace character followed by another one is dropped, the last of a run
  becomes the space.
\<close>

fun sub_ws :: "string \<Rightarrow> string" where
  "sub_ws [] = []"
| "sub_ws [c] = (if is_space c then '' '' else [c])"
| "sub_ws (c # d # cs) =
     (if is_space c then (if is_space d then sub_ws (d # cs) else CHR '' '' # sub_ws (d # cs))
      else c # sub_ws (d # cs))"

definition normalize_text :: "string \<Rightarrow> string" where
  "normalize_text t = strip (sub_ws (lower t))"

text \<open>
  \<open>s.split(sep)\<close> for a one-character separator is \<open>split_when (\<lambda>c. c = sep) s\<close>;
  \<open>s.split()\<close> splits at whitespace and keeps the non-empty pieces.
\<close>

fun split_when :: "(char \<Rightarrow> bool) \<Rightarrow> string \<Rightarrow> string list" where
  "split_when p [] = [[]]"
| "split_when p (c # cs) =
     (if p c then [] # split_when p cs
      else (case split_when p cs of [] \<Rightarrow> [[c]] | w # ws \<Rightarrow> (c # w) # ws))"

definition split_ws :: "string \<Rightarrow> string list" where
  "split_ws s = filter (\<lambda>w. w \<noteq> []) (split_when is_space s)"

definition endswith :: "string \<Rightarrow> string \<Rightarrow> bool" where
  "endswith s suffix = (length suffix \<le> length s \<and> drop (length s - length suffix) s = suffix)"

section \<open>Regular expressions\<close>

text \<open>
  The fragment of Python's \<open>re\<close> the program uses, with the backtracking order of the
  library: \<open>Cls p lo hi\<close> is a character class repeated between \<open>lo\<close> and \<open>hi\<close> times,
  greedy (\<^verbatim>\<open>[...]\<close>, \<^verbatim>\<open>\d{1,3}\<close>, \<^verbatim>\<open>x?\<close>, \<^verbatim>\<open>\s*\<close>, \<^verbatim>\<open>\d+\<close>); \<open>Lit\<close> a literal
  string; \<open>Bnd\<close> the word boundary \<^verbatim>\<open>\b\<close>; \<open>Seq\<close> concatenation; \<open>Opt\<close> the greedy
  \<^verbatim>\<open>(...)?\<close>; \<open>Grp\<close> a capturing group (the patterns have at most one).
  \<open>matches r t i\<close> lists, in the order in which the backtracking matcher would reach
  them, the ways \<open>r\<close> matches \<open>t\<close> from position \<open>i\<close>: the end position and the span
  of the group. The head of the list is the match \<open>re\<close> reports.
\<close>

datatype regex =
    Cls "char \<Rightarrow> bool" nat "nat option"
  | Lit string
  | Bnd
  | Seq regex regex
  | Opt regex
  | Grp regex

type_synonym span = "nat \<times> nat"

definition at_boundary :: "string \<Rightarrow> nat \<Rightarrow> bool" where
  "at_boundary t i =
     (let prev_word = (0 < i \<and> i \<le> length t \<and> is_word (t ! (i - 1)));
          next_word = (i < length t \<and> is_word (t ! i))
      in prev_word \<noteq> next_word)"

fun matches :: "regex \<Rightarrow> string \<Rightarrow> nat \<Rightarrow> (nat \<times> span option) list" where
  "matches (Cls p lo hi) t i =
     (let n = length (takeWhile p (drop i t));
          m = (case hi of None \<Rightarrow> n | Some h \<Rightarrow> min n h)
      in map (\<lambda>k. (i + k, None)) (rev [lo..<Suc m]))"
| "matches (Lit s) t i =
     (if take (length s) (drop i t) = s then [(i + length s, None)] else [])"
| "matches Bnd t i = (if at_boundary t i then [(i, None)] else [])"
| "matches (Seq r1 r2) t i =
     concat (map (\<lambda>(e1, g1).
        map (\<lambda>(e2, g2). (e2, case g2 of None \<Rightarrow> g1 | Some x \<Rightarrow> Some x)) (matches r2 t e1))
       (matches r1 t i))"
| "matches (Opt r) t i = matches r t i @ [(i, None)]"
| "matches (Grp r) t i = map (\<lambda>(e, g). (e, Some (i, e))) (matches r t i)"

text \<open>
  \<open>re.search\<close> tries the start positions from left to right and reports the first
  match: its start, its end and the span of the group.
\<close>

fun search_from :: "regex \<Rightarrow> string \<Rightarrow> nat list \<Rightarrow> (nat \<times> nat \<times> span option) option" where
  "search_from r t [] = None"
| "search_from r t (i # is) =
     (case matches r t i of [] \<Rightarrow> search_from r t is | (e, g) # _ \<Rightarrow> Some (i, e, g))"

definition re_search :: "regex \<Rightarrow> string \<Rightarrow> (nat \<times> nat \<times> span option) option" where
  "re_search r t = search_from r t [0..<Suc (length t)]"

definition substr :: "string \<Rightarrow> nat \<Rightarrow> nat \<Rightarrow> string" where
  "substr t i e = take (e - i) (drop i t)"

text \<open>
  \<open>re.findall\<close> scans from left to right for non-overlapping matches: after a match
  the scan goes on at its end (one further when the match is empty). For a pattern
  with one group it returns the text of the group in each match.
\<close>

fun findall_from :: "regex \<Rightarrow> string \<Rightarrow> nat \<Rightarrow> nat list \<Rightarrow> (nat \<times> nat \<times> span option) list" where
  "findall_from r t nxt [] = []"
| "findall_from r t nxt (i # is) =
     (if i < nxt then findall_from r t nxt is
      else (case matches r t i of
              [] \<Rightarrow> findall_from r t nxt is
            | (e, g) # _ \<Rightarrow> (i, e, g) # findall_from r t (max e (Suc i)) is))"

definition group_text :: "string \<Rightarrow> nat \<times> nat \<times> span option \<Rightarrow> string" where
  "group_text t m = (case m of (i, e, g) \<Rightarrow>
     (case g of None \<Rightarrow> [] | Some (a, b) \<Rightarrow> substr t a b))"

definition re_findall :: "regex \<Rightarrow> string \<Rightarrow> string list" where
  "re_findall r t = map (group_text t) (findall_from r t 0 [0..<Suc (length t)])"

section \<open>Exceptions and the conversion to integers\<close>

text \<open>
  An exception is modelled by its message, \<open>str(e)\<close>; a \<open>ValueError\<close> is told apart
  from the exceptions of the other classes. A computation that may raise returns
  \<open>Inl\<close> of the exception or \<open>Inr\<close> of its value.
\<close>

datatype exn = ValueError string | Exn string

text \<open>The decimal numeral of a natural number.\<close>

fun decimal :: "nat \<Rightarrow> string" where
  "decimal n = (if n < 10 then [char_of (48 + n)]
                else decimal (n div 10) @ [char_of (48 + n mod 10)])"

declare decimal.simps [simp del]

text \<open>
  \<open>int(m)\<close> on a string of decimal digits gives the number they denote, of any size.
  The interpreter refuses to convert a string of more than \<open>sys.int_max_str_digits\<close>
  digits and raises \<open>ValueError\<close>. The limit is 4300 unless it was changed; leading
  zeros are counted. It exists since Python 3.11 and the security releases of the
  versions before it.
\<close>

definition digit_val :: "char \<Rightarrow> int" where
  "digit_val c = int (code_point c) - 48"

definition digits_value :: "string \<Rightarrow> int" where
  "digits_value ds = foldl (\<lambda>a c. 10 * a + digit_val c) 0 ds"

definition int_max_str_digits :: nat where
  "int_max_str_digits = 4300"

definition too_many_digits :: "nat \<Rightarrow> exn" where
  "too_many_digits n =
     ValueError (''Exceeds the limit (4300 digits) for integer string conversion: value has '' @
          decimal n @ '' digits; use sys.set_int_max_str_digits() to increase the limit'')"

definition int_of_digits :: "string \<Rightarrow> exn + int" where
  "int_of_digits ds =
     (if int_max_str_digits < length ds then Inl (too_many_digits (length ds))
      else Inr (digits_value ds))"

text \<open>
  \<open>map(int, ms)\<close>, consumed by \<open>max\<close> or \<open>min\<close>: the strings are converted from left
  to right, and the first one that \<open>int\<close> refuses ends the computation.
\<close>

fun map_int :: "string list \<Rightarrow> exn + int list" where
  "map_int [] = Inr []"
| "map_int (m # ms) =
     (case int_of_digits m of
        Inl e \<Rightarrow> Inl e
      | Inr v \<Rightarrow> (case map_int ms of Inl e \<Rightarrow> Inl e | Inr vs \<Rightarrow> Inr (v # vs)))"

section \<open>ResumeParser\<close>

definition SKILL_DB :: "string list" where
  "SKILL_DB =
    [''python'', ''java'', ''c++'', ''sql'', ''aws'', ''docker'', ''kubernetes'',
     ''react'', ''angular'', ''django'', ''flask'', ''machine learning'',
     ''data analysis'', ''communication'', ''project management'',
     ''git'', ''linux'', ''html'', ''css'', ''javascript'',
     ''typescript'', ''node.js'', ''pandas'', ''numpy'']"

definition one_of :: "string \<Rightarrow> char \<Rightarrow> bool" where
  "one_of s c = (c \<in> set s)"

text \<open>\<^verbatim>\<open>[a-zA-Z0-9._%+-]+@[a-zA-Z0-9.-]+\.[a-zA-Z]{2,}\<close>\<close>

definition email_re :: regex where
  "email_re =
     Seq (Cls (\<lambda>c. ascii_letter c \<or> is_decimal c \<or> one_of ''._%+-'' c) 1 None)
    (Seq (Lit ''@'')
    (Seq (Cls (\<lambda>c. ascii_letter c \<or> is_decimal c \<or> one_of ''.-'' c) 1 None)
    (Seq (Lit ''.'')
         (Cls ascii_letter 2 None))))"

text \<open>\<^verbatim>\<open>(\+?\d{1,3}[-.\s]?)?\(?\d{3}\)?[-.\s]?\d{3}[-.\s]?\d{4}\<close>\<close>

definition sep_chr :: "char \<Rightarrow> bool" where
  "sep_chr c = (one_of ''-.'' c \<or> is_space c)"

definition phone_re :: regex where
  "phone_re =
     Seq (Opt (Grp (Seq (Cls (one_of ''+'') 0 (Some 1))
                   (Seq (Cls is_decimal 1 (Some 3))
                        (Cls sep_chr 0 (Some 1))))))
    (Seq (Cls (one_of ''('') 0 (Some 1))
    (Seq (Cls is_decimal 3 (Some 3))
    (Seq (Cls (one_of '')'') 0 (Some 1))
    (Seq (Cls sep_chr 0 (Some 1))
    (Seq (Cls is_decimal 3 (Some 3))
    (Seq (Cls sep_chr 0 (Some 1))
         (Cls is_decimal 4 (Some 4))))))))"

text \<open>\<^verbatim>\<open>\b\<close> followed by \<open>re.escape(skill)\<close> followed by \<^verbatim>\<open>\b\<close>\<close>

definition skill_re :: "string \<Rightarrow> regex" where
  "skill_re skill = Seq Bnd (Seq (Lit skill) Bnd)"

text \<open>\<^verbatim>\<open>(\d+)\+?\s*years?\<close>\<close>

definition years_re :: regex where
  "years_re =
     Seq (Grp (Cls is_decimal 1 None))
    (Seq (Cls (one_of ''+'') 0 (Some 1))
    (Seq (Cls is_space 0 None)
    (Seq (Lit ''year'')
         (Cls (one_of ''s'') 0 (Some 1)))))"

text \<open>\<^verbatim>\<open>(20\d{2})\<close>\<close>

definition range_re :: regex where
  "range_re = Grp (Seq (Lit ''20'') (Cls is_decimal 2 (Some 2)))"

definition extract_email :: "string \<Rightarrow> string" where
  "extract_email text =
     (case re_search email_re text of
        Some (i, e, g) \<Rightarrow> substr text i e
      | None \<Rightarrow> ''Not Found'')"

definition extract_phone :: "string \<Rightarrow> string" where
  "extract_phone text =
     (case re_search phone_re text of
        Some (i, e, g) \<Rightarrow> substr text i e
      | None \<Rightarrow> ''Not Found'')"

definition extract_name :: "string \<Rightarrow> string" where
  "extract_name text =
     (let lines = filter (\<lambda>l. l \<noteq> [])
                    (map strip (split_when (\<lambda>c. c = CHR 0x0A) text))
      in case lines of
           [] \<Rightarrow> ''Unknown''
         | l # _ \<Rightarrow> if length (split_ws l) \<le> 4 then l else ''Unknown'')"

text \<open>
  The loop of \<open>extract_skills\<close> collects in \<open>found\<close> the entries of the vocabulary
  that the pattern finds in the normalized text, in the order of the vocabulary.
\<close>

definition found_skills :: "string \<Rightarrow> string list" where
  "found_skills text =
     (let text_lower = normalize_text text
      in filter (\<lambda>skill. re_search (skill_re skill) text_lower \<noteq> None) SKILL_DB)"

text \<open>
  \<open>list(set(found))\<close>: the elements of the set, each once, in the iteration order of
  the set object. For strings that order depends on the hash seed of the process, so
  it is a parameter of the model: a \<open>set_order\<close> lists any finite set without
  repetition.
\<close>

type_synonym set_order = "string set \<Rightarrow> string list"

definition valid_order :: "set_order \<Rightarrow> bool" where
  "valid_order ord = (\<forall>A. finite A \<longrightarrow> set (ord A) = A \<and> distinct (ord A))"

definition extract_skills :: "set_order \<Rightarrow> string \<Rightarrow> string list" where
  "extract_skills ord text = ord (set (found_skills text))"

text \<open>\<open>max\<close> and \<open>min\<close> of a list of integers; the program calls them on non-empty lists.\<close>

fun max_of :: "int list \<Rightarrow> int" where
  "max_of [] = 0"
| "max_of [x] = x"
| "max_of (x # y # ys) = max x (max_of (y # ys))"

fun min_of :: "int list \<Rightarrow> int" where
  "min_of [] = 0"
| "min_of [x] = x"
| "min_of (x # y # ys) = min x (min_of (y # ys))"

text \<open>
  In the first branch a \<open>ValueError\<close> of \<open>int\<close> leaves the function; in the second
  branch the \<open>try\<close> statement turns any exception into the result 0.
\<close>

definition extract_experience :: "string \<Rightarrow> exn + int" where
  "extract_experience text =
     (let text_lower = normalize_text text;
          ms = re_findall years_re text_lower
      in if ms \<noteq> [] then
           (case map_int ms of Inl e \<Rightarrow> Inl e | Inr vs \<Rightarrow> Inr (max_of vs))
         else (let years = re_findall range_re text_lower
               in if length years \<ge> 2
                  then (case map_int years of
                          Inl e \<Rightarrow> Inr 0
                        | Inr vs \<Rightarrow> Inr (max_of vs - min_of vs))
                  else Inr 0))"

record candidate =
  name :: string
  email :: string
  phone :: string
  skills :: "string list"
  years_experience :: int
  raw_text :: string

text \<open>
  The entries of the dictionary are computed in the order written. Only
  \<open>extract_experience\<close> can raise, and then \<open>parse\<close> raises.
\<close>

definition parse :: "set_order \<Rightarrow> string \<Rightarrow> exn + candidate" where
  "parse ord text =
     (case extract_experience text of
        Inl e \<Rightarrow> Inl e
      | Inr years \<Rightarrow>
          Inr \<lparr> name = extract_name text,
                email = extract_email text,
                phone = extract_phone text,
                skills = extract_skills ord text,
                years_experience = years,
                raw_text = text \<rparr>)"

section \<open>Floating-point arithmetic\<close>

text \<open>
  A Python \<open>float\<close> is an IEEE 754 binary64 number. The scores are finite and lie
  between 0 and 100, so a float is modelled by the rational number it denotes and
  every operation rounds the exact result to the nearest binary64 value, ties to the
  even significand: 53 significant bits for normal numbers, multiples of
  \<open>2 powi (- 1074)\<close> below \<open>2 powi (- 1022)\<close>. Overflow to infinity is outside the
  model; no operation of \<open>calculate_score\<close> on a candidate with non-negative
  experience leaves the interval from 0 to 100.
\<close>

type_synonym float = rat

definition ilog2 :: "rat \<Rightarrow> int" where
  "ilog2 x = (if 1 \<le> x then bitlen \<lfloor>x\<rfloor> - 1 else - bitlen (\<lceil>1 / x\<rceil> - 1))"

definition round_half_even :: "rat \<Rightarrow> int" where
  "round_half_even x =
     (let f = \<lfloor>x\<rfloor>; d = x - of_int f
      in if d < 1 / 2 then f else if 1 / 2 < d then f + 1 else if even f then f else f + 1)"

definition ulp :: "rat \<Rightarrow> rat" where
  "ulp x = 2 powi (max (ilog2 \<bar>x\<bar>) (- 1022) - 52)"

definition rnd64 :: "rat \<Rightarrow> float" where
  "rnd64 x = (if x = 0 then 0 else of_int (round_half_even (x / ulp x)) * ulp x)"

text \<open>
  \<open>a / b\<close> on two \<open>int\<close>s is the correctly rounded quotient (both call sites guard
  against a zero divisor); \<open>*\<close> and \<open>+\<close> on floats round once; an \<open>int\<close> operand of
  a mixed operation is converted first; a literal denotes the nearest float.
\<close>

definition int_truediv :: "int \<Rightarrow> int \<Rightarrow> float" where
  "int_truediv a b = rnd64 (of_int a / of_int b)"

definition float_mul :: "float \<Rightarrow> float \<Rightarrow> float" where
  "float_mul x y = rnd64 (x * y)"

definition float_add :: "float \<Rightarrow> float \<Rightarrow> float" where
  "float_add x y = rnd64 (x + y)"

definition float_of_int :: "int \<Rightarrow> float" where
  "float_of_int i = rnd64 (of_int i)"

definition lit_0_7 :: float where
  "lit_0_7 = rnd64 (7 / 10)"

definition lit_0_3 :: float where
  "lit_0_3 = rnd64 (3 / 10)"

text \<open>
  \<open>round(x, 1)\<close> on a float: the exact value of \<open>x\<close> is rounded to one decimal
  (ties to even) and the decimal is converted back to the nearest float.
\<close>

definition float_round1 :: "float \<Rightarrow> float" where
  "float_round1 x = rnd64 (of_int (round_half_even (x * 10)) / 10)"

text \<open>
  \<open>skill_score\<close> and \<open>exp_score\<close> hold the \<open>int\<close> 100 on some paths and a float on
  the others.
\<close>

datatype pynum = PyInt int | PyFloat float

fun as_float :: "pynum \<Rightarrow> float" where
  "as_float (PyInt i) = float_of_int i"
| "as_float (PyFloat x) = x"

fun num_val :: "pynum \<Rightarrow> rat" where
  "num_val (PyInt i) = of_int i"
| "num_val (PyFloat x) = x"

text \<open>\<open>round(n, 1)\<close>: an \<open>int\<close> is returned as it is.\<close>

fun round1 :: "pynum \<Rightarrow> pynum" where
  "round1 (PyInt i) = PyInt i"
| "round1 (PyFloat x) = PyFloat (float_round1 x)"

section \<open>JobMatcher\<close>

record job_matcher =
  req_skills :: "string set"
  min_exp :: int

definition JobMatcher :: "string list \<Rightarrow> int \<Rightarrow> job_matcher" where
  "JobMatcher required_skills min_exp' =
     \<lparr> req_skills = set (map normalize_text required_skills), min_exp = min_exp' \<rparr>"

definition skill_part :: "set_order \<Rightarrow> job_matcher \<Rightarrow> candidate \<Rightarrow> pynum \<times> string list" where
  "skill_part ord self cand =
     (let candidate_skills = set (skills cand)
      in if req_skills self = {} then (PyInt 100, [])
         else (let matched = candidate_skills \<inter> req_skills self;
                   missing = ord (req_skills self - candidate_skills)
               in (PyFloat (float_mul
                     (int_truediv (int (card matched)) (int (card (req_skills self)))) 100),
                   missing)))"

definition exp_part :: "job_matcher \<Rightarrow> candidate \<Rightarrow> pynum" where
  "exp_part self cand =
     (let candidate_exp = years_experience cand
      in if candidate_exp \<ge> min_exp self then PyInt 100
         else if min_exp self > 0
              then PyFloat (float_mul (int_truediv candidate_exp (min_exp self)) 100)
              else PyInt 100)"

definition calculate_score ::
  "set_order \<Rightarrow> job_matcher \<Rightarrow> candidate \<Rightarrow> float \<times> string list \<times> pynum" where
  "calculate_score ord self cand =
     (let (skill_score, missing) = skill_part ord self cand;
          exp_score = exp_part self cand;
          final_score = float_add (float_mul (as_float skill_score) lit_0_7)
                                  (float_mul (as_float exp_score) lit_0_3)
      in (float_round1 final_score, missing, round1 skill_score))"

section \<open>Reading a document\<close>

text \<open>
  \<open>pypdf\<close>, \<open>docx\<close> and the codec are libraries: what they make of the bytes of a
  file is a parameter. Opening a document raises or gives its pages or paragraphs;
  reading the text of one page or paragraph raises or gives a string.
\<close>

record uploaded_file =
  filename :: string
  file_bytes :: "nat list"

record libs =
  PdfReader :: "nat list \<Rightarrow> exn + (exn + string) list"
  Document :: "nat list \<Rightarrow> exn + (exn + string) list"
  decode_utf8 :: "nat list \<Rightarrow> exn + string"

text \<open>
  The two loops append to \<open>text\<close>; when an item raises, the loop is left with the
  text appended so far. The result is the exception, if any, and \<open>text\<close>.
\<close>

fun read_pages :: "(exn + string) list \<Rightarrow> string \<Rightarrow> exn option \<times> string" where
  "read_pages [] text = (None, text)"
| "read_pages (page # pages) text =
     (case page of
        Inl e \<Rightarrow> (Some e, text)
      | Inr extracted \<Rightarrow>
          read_pages pages (if extracted \<noteq> [] then text @ extracted @ [CHR 0x0A] else text))"

fun read_paragraphs :: "(exn + string) list \<Rightarrow> string \<Rightarrow> exn option \<times> string" where
  "read_paragraphs [] text = (None, text)"
| "read_paragraphs (para # paras) text =
     (case para of
        Inl e \<Rightarrow> (Some e, text)
      | Inr para_text \<Rightarrow> read_paragraphs paras (text @ para_text @ [CHR 0x0A]))"

text \<open>The body of the \<open>try\<close> block, started with \<open>text = ""\<close>.\<close>

definition try_body :: "libs \<Rightarrow> uploaded_file \<Rightarrow> exn option \<times> string" where
  "try_body lib uploaded =
     (if endswith (filename uploaded) ''.pdf'' then
        (case PdfReader lib (file_bytes uploaded) of
           Inl e \<Rightarrow> (Some e, [])
         | Inr pages \<Rightarrow> read_pages pages [])
      else if endswith (filename uploaded) ''.docx'' then
        (case Document lib (file_bytes uploaded) of
           Inl e \<Rightarrow> (Some e, [])
         | Inr paras \<Rightarrow> read_paragraphs paras [])
      else if endswith (filename uploaded) ''.txt'' then
        (case decode_utf8 lib (file_bytes uploaded) of
           Inl e \<Rightarrow> (Some e, [])
         | Inr decoded \<Rightarrow> (None, decoded))
      else (None, []))"

text \<open>
  \<open>extract_text\<close> returns \<open>text\<close> and the messages it passed to \<open>st.error\<close>; the
  \<open>except\<close> clause handles every exception of the body.
\<close>

definition error_message :: "uploaded_file \<Rightarrow> exn \<Rightarrow> string" where
  "error_message uploaded e =
     (case e of
        ValueError msg \<Rightarrow> ''Error reading '' @ filename uploaded @ '': '' @ msg
      | Exn msg \<Rightarrow> ''Error reading '' @ filename uploaded @ '': '' @ msg)"

definition extract_text :: "libs \<Rightarrow> uploaded_file \<Rightarrow> string \<times> string list" where
  "extract_text lib uploaded =
     (case try_body lib uploaded of
        (None, text) \<Rightarrow> (text, [])
      | (Some e, text) \<Rightarrow> (text, [error_message uploaded e]))"

section \<open>The screening loop\<close>

definition recommend :: "float \<Rightarrow> string" where
  "recommend score =
     (if score \<ge> 85 then ''Strong Hire'' else if score \<ge> 60 then ''Interview'' else ''Reject'')"

fun join :: "string \<Rightarrow> string list \<Rightarrow> string" where
  "join sep [] = []"
| "join sep [w] = w"
| "join sep (w # v # ws) = w @ sep @ join sep (v # ws)"




section \<open>Notions used in the statements and proofs\<close>

subsection \<open>Whole-word occurrences\<close>

text \<open>
  The pattern of \<open>extract_skills\<close> matches \<open>s\<close> at position \<open>i\<close> of \<open>t\<close> when
  \<open>skill_at s t i\<close>. \<open>has_word\<close> is the same search as one pass over the text that
  remembers whether the previous character was a word character.
\<close>

definition skill_at :: "string \<Rightarrow> string \<Rightarrow> nat \<Rightarrow> bool" where
  "skill_at s t i =
     (at_boundary t i \<and> take (length s) (drop i t) = s \<and> at_boundary t (i + length s))"

definition bnd :: "bool \<Rightarrow> string \<Rightarrow> bool" where
  "bnd pw rest = (pw \<noteq> (rest \<noteq> [] \<and> is_word (hd rest)))"

definition occ :: "string \<Rightarrow> bool \<Rightarrow> string \<Rightarrow> bool" where
  "occ s pw t = (bnd pw t \<and> take (length s) t = s \<and>
     bnd (if s = [] then pw else is_word (last s)) (drop (length s) t))"

fun has_word :: "string \<Rightarrow> bool \<Rightarrow> string \<Rightarrow> bool" where
  "has_word s pw [] = occ s pw []"
| "has_word s pw (c # cs) = (occ s pw (c # cs) \<or> has_word s (is_word c) cs)"

text \<open>
  The same search once more, arranged so that a position is examined further only
  when the entry is a prefix of the text there.
\<close>

fun starts_with :: "string \<Rightarrow> string \<Rightarrow> string option" where
  "starts_with [] t = Some t"
| "starts_with (c # cs) [] = None"
| "starts_with (c # cs) (d # ds) = (if c = d then starts_with cs ds else None)"

definition word_before :: "char option \<Rightarrow> bool" where
  "word_before prev = (case prev of None \<Rightarrow> False | Some p \<Rightarrow> is_word p)"

fun scan_word :: "string \<Rightarrow> char option \<Rightarrow> string \<Rightarrow> bool" where
  "scan_word s prev [] = False"
| "scan_word s prev (c # cs) =
     (case starts_with s (c # cs) of
        None \<Rightarrow> scan_word s (Some c) cs
      | Some rest \<Rightarrow>
          if bnd (word_before prev) (c # cs) \<and> bnd (is_word (last s)) rest then True
          else scan_word s (Some c) cs)"

text \<open>
  The specification's notion: \<open>s\<close> stands in \<open>t\<close> at position \<open>i\<close> as a word or
  phrase of its own when the character before it, if any, and the character after it,
  if any, are not word characters.
\<close>

definition whole_word_at :: "string \<Rightarrow> string \<Rightarrow> nat \<Rightarrow> bool" where
  "whole_word_at s t i =
     (s \<noteq> [] \<and> take (length s) (drop i t) = s \<and>
      (i = 0 \<or> \<not> is_word (t ! (i - 1))) \<and>
      (i + length s = length t \<or> \<not> is_word (t ! (i + length s))))"

definition occurs_whole :: "string \<Rightarrow> string \<Rightarrow> bool" where
  "occurs_whole s t = list_ex (whole_word_at s t) [0..<Suc (length t)]"

definition cpp_text :: string where
  "cpp_text = ''Skills: C++, Java''"

subsection \<open>Documents and runs used as examples\<close>

text \<open>What one page adds to \<open>text\<close> in \<open>extract_text\<close>.\<close>

definition page_text :: "string \<Rightarrow> string" where
  "page_text extracted = (if extracted \<noteq> [] then extracted @ [CHR 0x0A] else [])"

definition broken_lib :: libs where
  "broken_lib = \<lparr> PdfReader = (\<lambda>bytes. Inr [Inr ''Jane Doe'', Inl (Exn ''bad page'')]),
                   Document = (\<lambda>bytes. Inl (Exn ''not a docx file'')),
                   decode_utf8 = (\<lambda>bytes. Inl (Exn ''invalid start byte'')) \<rparr>"


definition default_candidate :: candidate where
  "default_candidate = \<lparr> name = ''Unknown'', email = ''Not Found'', phone = ''Not Found'',
      skills = [], years_experience = 0, raw_text = [] \<rparr>"

definition rtf_file :: uploaded_file where
  "rtf_file = \<lparr> filename = ''cv.rtf'', file_bytes = [123, 92, 114, 116, 102] \<rparr>"

text \<open>
  \<open>parse\<close> followed by \<open>calculate_score\<close>, as the loop over the uploaded files
  does; the two \<open>list(set)\<close> conversions each have their order.
\<close>

definition parse_then_score ::
  "set_order \<Rightarrow> set_order \<Rightarrow> string \<Rightarrow> string list \<Rightarrow> int
     \<Rightarrow> exn + candidate \<times> float \<times> string list \<times> pynum" where
  "parse_then_score ord1 ord2 text required_skills min_exp' =
     (case parse ord1 text of
        Inl e \<Rightarrow> Inl e
      | Inr cand \<Rightarrow> Inr (cand, calculate_score ord2 (JobMatcher required_skills min_exp') cand))"

definition rev_sorted :: set_order where
  "rev_sorted A = rev (sorted_list_of_set A)"

subsection \<open>Scores\<close>

text \<open>The exponent of the spacing of the floats around \<open>x\<close>.\<close>

definition ulp_exp :: "rat \<Rightarrow> int" where
  "ulp_exp x = max (ilog2 \<bar>x\<bar>) (- 1022) - 52"

text \<open>The final score as a function of the values of the two partial scores.\<close>

definition blend :: "float \<Rightarrow> float \<Rightarrow> float" where
  "blend s e = float_round1 (float_add (float_mul s lit_0_7) (float_mul e lit_0_3))"

definition junior :: candidate where
  "junior = \<lparr> name = ''A'', email = ''Not Found'', phone = ''Not Found'',
      skills = [''python''], years_experience = 1, raw_text = [] \<rparr>"

definition senior :: candidate where
  "senior = \<lparr> name = ''B'', email = ''Not Found'', phone = ''Not Found'',
      skills = [''sql'', ''python''], years_experience = 4, raw_text = [] \<rparr>"

subsection \<open>Normalization, as the specification words it\<close>

text \<open>
  \<open>s.rstrip()\<close>, and the normal form of a string described by its result: the
  lower-cased text cut into its whitespace-separated tokens, the tokens joined by single
  spaces.
\<close>

definition rstrip :: "string \<Rightarrow> string" where
  "rstrip s = rev (dropWhile is_space (rev s))"

definition normalized_spec :: "string \<Rightarrow> string" where
  "normalized_spec s = join '' '' (split_ws (lower s))"

subsection \<open>Scenario A\<close>

definition scenario_text :: string where
  "scenario_text = ''Jane Doe'' @ [CHR 0x0A] @ ''jane.doe@example.com'' @ [CHR 0x0A] @
     ''555-123-4567'' @ [CHR 0x0A] @ ''Skills: Python, SQL, AWS'' @ [CHR 0x0A] @
     ''5 years experience''"

definition scenario_matcher :: job_matcher where
  "scenario_matcher = JobMatcher [''python'', ''sql'', ''aws'', ''docker''] 3"

subsection \<open>Experience, as the specification words it\<close>

text \<open>
  \<open>run p t i\<close> is the number of characters of class \<open>p\<close> that follow one another in
  \<open>t\<close> from position \<open>i\<close>.
\<close>

definition run :: "(char \<Rightarrow> bool) \<Rightarrow> string \<Rightarrow> nat \<Rightarrow> nat" where
  "run p t i = length (takeWhile p (drop i t))"

text \<open>
  An occurrence of the phrase: at position \<open>i\<close> stand \<open>k\<close> digits, at least one, then
  \<open>p\<close> plus signs, at most one, then \<open>w\<close> whitespace characters, then the letters
  \<open>year\<close>, whatever follows them. \<open>phrases\<close> lists all occurrences, wherever they
  stand, and \<open>phrase_values\<close> their numbers. \<open>long_count\<close> holds of a text in which
  the digits of some occurrence are more than \<open>int\<close> converts.
\<close>

definition year_phrase :: "string \<Rightarrow> nat \<Rightarrow> nat \<Rightarrow> nat \<Rightarrow> nat \<Rightarrow> bool" where
  "year_phrase t i k p w =
     (1 \<le> k \<and> p \<le> 1 \<and>
      list_all is_decimal (substr t i (i + k)) \<and>
      substr t (i + k) (i + k + p) = replicate p CHR ''+'' \<and>
      list_all is_space (substr t (i + k + p) (i + k + p + w)) \<and>
      substr t (i + k + p + w) (i + k + p + w + 4) = ''year'')"

definition phrases :: "string \<Rightarrow> (nat \<times> nat \<times> nat \<times> nat) list" where
  "phrases t =
     filter (\<lambda>(i, k, p, w). year_phrase t i k p w)
       (List.product [0..<length t] (List.product [1..<Suc (length t)]
          (List.product [0..<2] [0..<Suc (length t)])))"

definition phrase_values :: "string \<Rightarrow> int list" where
  "phrase_values t = map (\<lambda>(i, k, p, w). digits_value (substr t i (i + k))) (phrases t)"

definition long_count :: "string \<Rightarrow> bool" where
  "long_count t = list_ex (\<lambda>(i, k, p, w). int_max_str_digits < k) (phrases t)"




text \<open>
  Three readings of the years that a text contains. \<open>year_occurrences\<close>: every place
  where \<open>20\<close> and two digits stand. \<open>year_tokens\<close>: those among them with no digit
  right before or after. \<open>scan_years\<close>: those met by reading from left to right and
  going on after each year found, so that no two of them overlap.
\<close>

definition is_20xx :: "string \<Rightarrow> bool" where
  "is_20xx w = (length w = 4 \<and> take 2 w = ''20'' \<and> list_all is_decimal (drop 2 w))"



fun scan_years :: "string \<Rightarrow> string list" where
  "scan_years (a # b # c # d # rest) =
     (if a = CHR ''2'' \<and> b = CHR ''0'' \<and> is_decimal c \<and> is_decimal d
      then [a, b, c, d] # scan_years rest
      else scan_years (b # c # d # rest))"
| "scan_years t = []"






definition long_count_text :: string where
  "long_count_text = replicate 4301 CHR ''9'' @ '' years''"


section \<open>Properties\<close>

subsection \<open>Searching for a skill\<close>

lemma search_from_None: "search_from r t js = None \<longleftrightarrow> (\<forall>i\<in>set js. matches r t i = [])"
  by (induction js) (auto split: list.splits)

lemma matches_skill_re:
  "matches (skill_re s) t i = (if skill_at s t i then [(i + length s, None)] else [])"
  by (simp add: skill_re_def skill_at_def)

lemma re_search_skill:
  "re_search (skill_re s) t \<noteq> None \<longleftrightarrow> (\<exists>i\<le>length t. skill_at s t i)"
proof -
  have "re_search (skill_re s) t = None \<longleftrightarrow> (\<forall>i<Suc (length t). \<not> skill_at s t i)"
    by (auto simp add: re_search_def search_from_None matches_skill_re simp del: upt_Suc)
  then show ?thesis
    by (metis less_Suc_eq_le)
qed

lemma at_boundary_app:
  "at_boundary (pre @ u) (length pre + j) =
     (if j = 0 then bnd (pre \<noteq> [] \<and> is_word (last pre)) u else at_boundary u j)"
proof (cases "j = 0")
  case True
  then show ?thesis
    by (cases pre rule: rev_cases; cases u) (auto simp: at_boundary_def bnd_def nth_append)
next
  case False
  then obtain k where "j = Suc k" by (cases j) auto
  then show ?thesis
    by (auto simp: at_boundary_def nth_append)
qed

lemma occ_skill_at:
  "occ s (pre \<noteq> [] \<and> is_word (last pre)) u = skill_at s (pre @ u) (length pre)"
proof (cases "take (length s) u = s")
  case False
  then show ?thesis by (simp add: occ_def skill_at_def)
next
  case True
  then obtain rest where u: "u = s @ rest"
    by (metis append_take_drop_id)
  have b0: "at_boundary (pre @ u) (length pre) = bnd (pre \<noteq> [] \<and> is_word (last pre)) u"
    using at_boundary_app [of pre u 0] by simp
  have b1: "at_boundary (pre @ u) (length pre + length s) =
      bnd (if s = [] then pre \<noteq> [] \<and> is_word (last pre) else is_word (last s)) rest"
    using at_boundary_app [of "pre @ s" rest 0] by (simp add: u)
  show ?thesis
    unfolding occ_def skill_at_def b0 b1 by (simp add: u)
qed

lemma has_word_iff:
  "has_word s (pre \<noteq> [] \<and> is_word (last pre)) u \<longleftrightarrow>
     (\<exists>j\<le>length u. skill_at s (pre @ u) (length pre + j))"
proof (induction u arbitrary: pre)
  case Nil
  show ?case using occ_skill_at [of s pre "[]"] by simp
next
  case (Cons c cs)
  have "(\<exists>j\<le>length (c # cs). skill_at s (pre @ c # cs) (length pre + j)) \<longleftrightarrow>
        skill_at s (pre @ c # cs) (length pre) \<or>
        (\<exists>j\<le>length cs. skill_at s ((pre @ [c]) @ cs) (length (pre @ [c]) + j))"
    (is "?L \<longleftrightarrow> ?A \<or> ?B")
  proof
    assume ?L
    then obtain j where j: "j \<le> Suc (length cs)" "skill_at s (pre @ c # cs) (length pre + j)"
      by auto
    show "?A \<or> ?B"
    proof (cases j)
      case 0
      with j show ?thesis by simp
    next
      case (Suc k)
      with j have "k \<le> length cs" "skill_at s ((pre @ [c]) @ cs) (length (pre @ [c]) + k)"
        by simp_all
      then show ?thesis by blast
    qed
  next
    assume "?A \<or> ?B"
    then show ?L
    proof
      assume ?A
      then show ?L by (intro exI [of _ 0]) simp
    next
      assume ?B
      then obtain k where "k \<le> length cs" "skill_at s ((pre @ [c]) @ cs) (length (pre @ [c]) + k)"
        by blast
      then show ?L by (intro exI [of _ "Suc k"]) simp
    qed
  qed
  moreover have "has_word s (is_word c) cs \<longleftrightarrow>
      (\<exists>j\<le>length cs. skill_at s ((pre @ [c]) @ cs) (length (pre @ [c]) + j))"
    using Cons.IH [of "pre @ [c]"] by simp
  ultimately show ?case
    using occ_skill_at [of s pre "c # cs"] by simp
qed

lemma re_search_has_word:
  "re_search (skill_re s) t \<noteq> None \<longleftrightarrow> has_word s False t"
  unfolding re_search_skill using has_word_iff [of s "[]" t] by simp

lemma has_word_skill_at:
  "has_word s False t \<longleftrightarrow> (\<exists>i\<le>length t. skill_at s t i)"
  using has_word_iff [of s "[]" t] by simp

lemma found_skills_has_word:
  "found_skills text = filter (\<lambda>s. has_word s False (normalize_text text)) SKILL_DB"
  unfolding found_skills_def Let_def re_search_has_word by (rule refl)

lemma starts_with_Some: "starts_with s t = Some rest \<longleftrightarrow> t = s @ rest"
  by (induction s t rule: starts_with.induct) auto

lemma starts_with_None: "starts_with s t = None \<longleftrightarrow> take (length s) t \<noteq> s"
proof -
  have "starts_with s t \<noteq> None \<longleftrightarrow> take (length s) t = s"
  proof
    assume "starts_with s t \<noteq> None"
    then obtain rest where "starts_with s t = Some rest" by auto
    then show "take (length s) t = s" by (simp add: starts_with_Some)
  next
    assume "take (length s) t = s"
    then have "t = s @ drop (length s) t" by (metis append_take_drop_id)
    then have "starts_with s t = Some (drop (length s) t)" by (simp only: starts_with_Some)
    then show "starts_with s t \<noteq> None" by simp
  qed
  then show ?thesis by blast
qed

lemma scan_word_has_word:
  assumes "s \<noteq> []"
  shows "scan_word s prev t = has_word s (word_before prev) t"
proof (induction t arbitrary: prev)
  case Nil
  then show ?case using assms by (simp add: occ_def)
next
  case (Cons c cs)
  have ih: "scan_word s (Some c) cs = has_word s (is_word c) cs"
    using Cons.IH [of "Some c"] by (simp add: word_before_def)
  show ?case
  proof (cases "starts_with s (c # cs)")
    case None
    then have "\<not> occ s (word_before prev) (c # cs)"
      by (simp add: starts_with_None occ_def)
    then show ?thesis using None ih by simp
  next
    case (Some rest)
    then have t: "c # cs = s @ rest" by (simp add: starts_with_Some)
    have "occ s (word_before prev) (c # cs) \<longleftrightarrow>
        bnd (word_before prev) (c # cs) \<and> bnd (is_word (last s)) rest"
      unfolding occ_def t using assms by simp
    then show ?thesis using Some ih by auto
  qed
qed

lemma SKILL_DB_nonempty: "s \<in> set SKILL_DB \<Longrightarrow> s \<noteq> []"
proof -
  have "list_all (\<lambda>s. s \<noteq> []) SKILL_DB" by code_simp
  then show "s \<in> set SKILL_DB \<Longrightarrow> s \<noteq> []" by (simp add: list_all_iff)
qed

lemma found_skills_scan:
  "found_skills text = filter (\<lambda>s. scan_word s None (normalize_text text)) SKILL_DB"
  unfolding found_skills_has_word
  by (rule filter_cong) (simp_all add: scan_word_has_word SKILL_DB_nonempty word_before_def)

text \<open>
  For an entry that begins and ends with a word character the pattern finds exactly
  the whole-word occurrences.
\<close>

lemma skill_at_whole_word:
  assumes "s \<noteq> []" "is_word (hd s)" "is_word (last s)"
  shows "skill_at s t i \<longleftrightarrow> whole_word_at s t i"
proof (cases "take (length s) (drop i t) = s")
  case False
  then show ?thesis by (simp add: skill_at_def whole_word_at_def)
next
  case True
  have len: "i + length s \<le> length t"
  proof -
    have "length (take (length s) (drop i t)) = length s" using True by simp
    then have "length s \<le> length t - i" by simp
    moreover have "i < length t" using True assms(1) by (cases "i < length t") auto
    ultimately show ?thesis by simp
  qed
  have pos: "0 < length s" using assms(1) by simp
  have nth: "\<And>k. k < length s \<Longrightarrow> t ! (i + k) = s ! k"
  proof -
    fix k assume k: "k < length s"
    have "s ! k = take (length s) (drop i t) ! k" using True by simp
    also have "\<dots> = t ! (i + k)" using k len by simp
    finally show "t ! (i + k) = s ! k" by simp
  qed
  have first: "is_word (t ! i)"
    using nth [of 0] pos assms(1,2) by (simp add: hd_conv_nth)
  have last: "is_word (t ! (i + length s - 1))"
  proof -
    have a: "t ! (i + (length s - 1)) = s ! (length s - 1)" using pos by (intro nth) simp
    have b: "i + length s - 1 = i + (length s - 1)" using pos by arith
    have "is_word (s ! (length s - 1))" using assms(1,3) by (simp add: last_conv_nth)
    then show ?thesis unfolding b a .
  qed
  have b0: "at_boundary t i \<longleftrightarrow> (i = 0 \<or> \<not> is_word (t ! (i - 1)))"
  proof -
    have "i < length t" using len pos by linarith
    then show ?thesis using first by (auto simp: at_boundary_def)
  qed
  have b1: "at_boundary t (i + length s) \<longleftrightarrow>
      (i + length s = length t \<or> \<not> is_word (t ! (i + length s)))"
  proof -
    have "0 < i + length s" using pos by linarith
    then show ?thesis using last len by (auto simp: at_boundary_def)
  qed
  show ?thesis
    using True assms(1) by (simp add: skill_at_def whole_word_at_def b0 b1)
qed

lemma found_iff_whole_word:
  assumes "s \<in> set SKILL_DB" "is_word (hd s)" "is_word (last s)"
  shows "s \<in> set (found_skills text) \<longleftrightarrow> occurs_whole s (normalize_text text)"
proof -
  have ne: "s \<noteq> []"
  proof -
    have "list_all (\<lambda>s. s \<noteq> []) SKILL_DB" by code_simp
    then show ?thesis using assms(1) by (simp add: list_all_iff)
  qed
  have "s \<in> set (found_skills text) \<longleftrightarrow> (\<exists>i\<le>length (normalize_text text).
      skill_at s (normalize_text text) i)"
    using assms(1) by (simp add: found_skills_has_word has_word_skill_at)
  also have "\<dots> \<longleftrightarrow> (\<exists>i\<le>length (normalize_text text). whole_word_at s (normalize_text text) i)"
    using skill_at_whole_word [OF ne assms(2,3)] by simp
  also have "\<dots> \<longleftrightarrow> occurs_whole s (normalize_text text)"
    by (auto simp add: occurs_whole_def list_ex_iff less_Suc_eq_le simp del: upt_Suc)
  finally show ?thesis .
qed

subsection \<open>The order of a set\<close>

lemma valid_sorted: "valid_order sorted_list_of_set"
  by (simp add: valid_order_def)

lemma valid_order_set: "valid_order ord \<Longrightarrow> set (ord (set xs)) = set xs"
  by (simp add: valid_order_def)

lemma valid_order_distinct: "valid_order ord \<Longrightarrow> distinct (ord (set xs))"
  by (simp add: valid_order_def)

lemma extract_skills_set:
  "valid_order ord \<Longrightarrow> set (extract_skills ord text) = set (found_skills text)"
  by (simp add: extract_skills_def valid_order_set)

subsection \<open>The skills reported\<close>

lemma SKILL_DB_lower: "s \<in> set SKILL_DB \<Longrightarrow> lower s = s"
proof -
  have "list_all (\<lambda>s. lower s = s) SKILL_DB" by code_simp
  then show "s \<in> set SKILL_DB \<Longrightarrow> lower s = s" by (simp add: list_all_iff)
qed

lemma found_skills_sub: "set (found_skills text) \<subseteq> set SKILL_DB"
  by (auto simp: found_skills_def Let_def)

text \<open>
  C8. Whatever the text, the list returned by \<open>extract_skills\<close> has no entry twice,
  not even up to case, and each of its entries is an entry of the vocabulary.
\<close>

theorem extract_skills_distinct_vocab:
  assumes "valid_order ord"
  shows "distinct (map lower (extract_skills ord text)) \<and>
         set (extract_skills ord text) \<subseteq> set SKILL_DB"
proof -
  have d: "distinct (extract_skills ord text)"
    using assms by (simp add: extract_skills_def valid_order_distinct)
  have sub: "set (extract_skills ord text) \<subseteq> set SKILL_DB"
    using assms found_skills_sub by (simp add: extract_skills_set)
  then have "map lower (extract_skills ord text) = extract_skills ord text"
    by (intro map_idI) (auto dest: SKILL_DB_lower)
  with d sub show ?thesis by simp
qed

theorem extract_skills_distinct_vocab_witness:
  "valid_order sorted_list_of_set \<and>
   distinct (map lower (extract_skills sorted_list_of_set ''SQL, Java, sql and JAVA'')) \<and>
   set (extract_skills sorted_list_of_set ''SQL, Java, sql and JAVA'') \<subseteq> set SKILL_DB"
  using extract_skills_distinct_vocab [OF valid_sorted, of "''SQL, Java, sql and JAVA''"]
    valid_sorted by simp

text \<open>
  C3. The entry \<open>c++\<close> ends with a character that is not a word character, so the
  pattern asks for a word character right after it. In the text
  \<open>Skills: C++, Java\<close> the entry stands as a word of its own, and is not reported;
  \<open>java\<close> is the only skill found.
\<close>

theorem cpp_whole_word_not_reported:
  assumes "valid_order ord"
  shows "''c++'' \<in> set SKILL_DB \<and> occurs_whole ''c++'' (normalize_text cpp_text) \<and>
         set (extract_skills ord cpp_text) = {''java''}"
proof -
  have n: "normalize_text cpp_text = ''skills: c++, java''"
    by code_simp
  have "''c++'' \<in> set SKILL_DB" by code_simp
  moreover have "occurs_whole ''c++'' (normalize_text cpp_text)"
    unfolding n by code_simp
  moreover have "found_skills cpp_text = [''java'']"
    unfolding found_skills_scan n by code_simp
  ultimately show ?thesis
    using assms by (simp add: extract_skills_set)
qed

theorem cpp_whole_word_not_reported_witness:
  "valid_order sorted_list_of_set \<and> occurs_whole ''c++'' (normalize_text cpp_text) \<and>
   set (extract_skills sorted_list_of_set cpp_text) = {''java''}"
  using cpp_whole_word_not_reported [OF valid_sorted] valid_sorted by simp

subsection \<open>Reading documents\<close>

lemma read_pages_app:
  "read_pages (map Inr ps @ rest) acc = read_pages rest (acc @ concat (map page_text ps))"
  by (induction ps arbitrary: acc) (simp_all add: page_text_def)

lemma read_pages_fail:
  "read_pages (map Inr ps @ Inl e # rest) acc = (Some e, acc @ concat (map page_text ps))"
  by (simp add: read_pages_app)


lemma ord_empty: "valid_order ord \<Longrightarrow> ord {} = []"
  using valid_order_set [of ord "[]"] by simp

lemma parse_empty: "valid_order ord \<Longrightarrow> parse ord [] = Inr default_candidate"
proof -
  assume v: "valid_order ord"
  have 1: "extract_name [] = ''Unknown''" by code_simp
  have 2: "extract_email [] = ''Not Found''" by code_simp
  have 3: "extract_phone [] = ''Not Found''" by code_simp
  have 4: "found_skills [] = []" by code_simp
  have 5: "extract_experience [] = Inr 0" by code_simp
  show ?thesis
    by (simp add: parse_def default_candidate_def 1 2 3 5 extract_skills_def 4 ord_empty [OF v])
qed

lemma rnd64_0: "rnd64 0 = 0" by (simp add: rnd64_def)
lemma float_of_int_100: "float_of_int 100 = 100" by code_simp
lemma mul_100_0_7: "float_mul 100 lit_0_7 = 70" by code_simp
lemma mul_100_0_3: "float_mul 100 lit_0_3 = 30" by code_simp
lemma add_70_30: "float_add 70 30 = 100" by code_simp
lemma round1_values: "float_round1 100 = 100" "float_round1 70 = 70" "float_round1 30 = 30" "float_round1 0 = 0"
  by code_simp+
lemma zero_scores: "float_mul 0 x = 0" "float_add 0 0 = 0" "float_add 70 0 = 70" "float_add 0 30 = 30"
  by (simp_all add: float_mul_def float_add_def rnd64_0) code_simp+
lemma truediv_zero: "int_truediv 0 b = 0" by (simp add: int_truediv_def rnd64_0)

text \<open>
  C9. A file whose name ends with none of \<open>.pdf\<close>, \<open>.docx\<close>, \<open>.txt\<close> gives the
  empty text and no message; the candidate parsed from it has every field at its
  default; its score credits nothing but requirements that ask for nothing: 70 when no
  skill is required, 30 when no experience is required, and the missing skills are
  all the required ones.
\<close>

theorem unrecognized_extension:
  assumes "\<not> endswith (filename f) ''.pdf''" "\<not> endswith (filename f) ''.docx''"
    "\<not> endswith (filename f) ''.txt''" "valid_order ord1" "valid_order ord2"
  shows "extract_text lib f = ([], []) \<and>
         parse ord1 (fst (extract_text lib f)) = Inr default_candidate \<and>
         parse_then_score ord1 ord2 (fst (extract_text lib f)) rs me =
           Inr (default_candidate,
                (if set rs = {} then 70 else 0) + (if me \<le> 0 then 30 else 0),
                ord2 (req_skills (JobMatcher rs me)),
                (if set rs = {} then PyInt 100 else PyFloat 0))"
proof -
  have t: "extract_text lib f = ([], [])"
    using assms(1-3) by (simp add: extract_text_def try_body_def)
  have p: "parse ord1 (fst (extract_text lib f)) = Inr default_candidate"
    by (simp add: t parse_empty [OF assms(4)])
  have r: "(req_skills (JobMatcher rs me) = {}) = (set rs = {})"
    by (simp add: JobMatcher_def)
  have s: "skill_part ord2 (JobMatcher rs me) default_candidate =
      (if set rs = {} then (PyInt 100, []) else (PyFloat 0, ord2 (req_skills (JobMatcher rs me))))"
    unfolding skill_part_def Let_def r
    by (simp add: default_candidate_def truediv_zero zero_scores)
  have e: "exp_part (JobMatcher rs me) default_candidate = (if me \<le> 0 then PyInt 100 else PyFloat 0)"
    by (simp add: exp_part_def default_candidate_def JobMatcher_def truediv_zero zero_scores)
  have o: "set rs = {} \<Longrightarrow> ord2 (req_skills (JobMatcher rs me)) = []"
    by (simp add: JobMatcher_def ord_empty [OF assms(5)])
  have c: "calculate_score ord2 (JobMatcher rs me) default_candidate =
           ((if set rs = {} then 70 else 0) + (if me \<le> 0 then 30 else 0),
            ord2 (req_skills (JobMatcher rs me)),
            (if set rs = {} then PyInt 100 else PyFloat 0))"
  proof (cases "set rs = {}")
    case True
    then show ?thesis
      unfolding calculate_score_def s e using o by (simp add: float_of_int_100 mul_100_0_7 mul_100_0_3 add_70_30 round1_values zero_scores)
  next
    case False
    then show ?thesis
      unfolding calculate_score_def s e by (simp add: float_of_int_100 mul_100_0_7 mul_100_0_3 add_70_30 round1_values zero_scores)
  qed
  show ?thesis using t p c by (simp add: parse_then_score_def)
qed

theorem unrecognized_extension_witness:
  "extract_text broken_lib rtf_file = ([], []) \<and>
   parse sorted_list_of_set (fst (extract_text broken_lib rtf_file)) = Inr default_candidate \<and>
   parse_then_score sorted_list_of_set sorted_list_of_set
     (fst (extract_text broken_lib rtf_file)) [''python''] 3 =
     Inr (default_candidate,
          0, sorted_list_of_set (req_skills (JobMatcher [''python''] 3)), PyFloat 0)"
proof -
  have e: "\<not> endswith (filename rtf_file) ''.pdf''" "\<not> endswith (filename rtf_file) ''.docx''"
    "\<not> endswith (filename rtf_file) ''.txt''"
    by (simp_all add: endswith_def rtf_file_def)
  note u = unrecognized_extension [OF e valid_sorted valid_sorted, of broken_lib "[''python'']" 3]
  have c: "((if set [''python''] = {} then 70 else 0) + (if (3::int) \<le> 0 then 30 else 0) :: rat) = 0"
    by simp
  have d: "(if set [''python''] = {} then PyInt 100 else PyFloat 0) = PyFloat 0"
    by simp
  show ?thesis using u unfolding c d .
qed

subsection \<open>The lists and the iteration order\<close>

lemma valid_rev_sorted: "valid_order rev_sorted"
  by (simp add: valid_order_def rev_sorted_def)

lemma skill_part_set:
  assumes "set (skills c) = set (skills c')"
  shows "fst (skill_part ord m c) = fst (skill_part ord' m c')"
    and "valid_order ord \<Longrightarrow> valid_order ord' \<Longrightarrow> finite (req_skills m) \<Longrightarrow>
         set (snd (skill_part ord m c)) = set (snd (skill_part ord' m c'))"
  using assms by (auto simp: skill_part_def Let_def valid_order_def)

lemma finite_req: "finite (req_skills (JobMatcher rs me))"
  by (simp add: JobMatcher_def)

lemma skill_part_distinct:
  assumes "valid_order ord" "finite (req_skills m)"
  shows "distinct (snd (skill_part ord m c))"
  using assms by (simp add: skill_part_def Let_def valid_order_def)

lemma calculate_score_parts:
  "calculate_score ord m c =
     (float_round1 (float_add (float_mul (as_float (fst (skill_part ord m c))) lit_0_7)
                              (float_mul (as_float (exp_part m c)) lit_0_3)),
      snd (skill_part ord m c), round1 (fst (skill_part ord m c)))"
  by (simp add: calculate_score_def split: prod.splits)

lemma distinct_same_set_length:
  assumes "distinct xs" "distinct ys" "set xs = set ys"
  shows "length xs = length ys"
  using assms by (metis distinct_card)

subsection \<open>Rounding to the nearest float\<close>

lemma rhe_of_int: "round_half_even (of_int n) = n"
  by (simp add: round_half_even_def)

lemma rhe_range: "round_half_even x = \<lfloor>x\<rfloor> \<or> round_half_even x = \<lfloor>x\<rfloor> + 1"
  by (simp add: round_half_even_def Let_def)

lemma rhe_mono:
  assumes "x \<le> y"
  shows "round_half_even x \<le> round_half_even y"
proof (cases "\<lfloor>x\<rfloor> = \<lfloor>y\<rfloor>")
  case True
  have "x - of_int \<lfloor>y\<rfloor> \<le> y - of_int \<lfloor>y\<rfloor>" using assms by simp
  then show ?thesis
    unfolding round_half_even_def Let_def True by auto
next
  case False
  have "\<lfloor>x\<rfloor> \<le> \<lfloor>y\<rfloor>" using assms by (rule floor_mono)
  with False have "\<lfloor>x\<rfloor> + 1 \<le> \<lfloor>y\<rfloor>" by simp
  moreover have "round_half_even x \<le> \<lfloor>x\<rfloor> + 1" using rhe_range [of x] by auto
  moreover have "\<lfloor>y\<rfloor> \<le> round_half_even y" using rhe_range [of y] by auto
  ultimately show ?thesis by linarith
qed

lemma pow2_pos: "0 < (2::rat) powi e"
  by simp

lemma pow2_mono: "a \<le> b \<Longrightarrow> (2::rat) powi a \<le> 2 powi b"
  by (rule power_int_increasing) simp_all

lemma pow2_split:
  assumes "b \<le> a"
  shows "(2::rat) powi a = of_int (2 ^ nat (a - b)) * 2 powi b"
proof -
  have "(2::rat) powi a = 2 powi ((a - b) + b)" by simp
  also have "\<dots> = 2 powi (a - b) * 2 powi b" by (rule power_int_add) simp
  also have "(2::rat) powi (a - b) = 2 ^ nat (a - b)"
    using assms by (simp add: power_int_nonneg_exp)
  finally show ?thesis by simp
qed

lemma ilog2_bounds:
  assumes "0 < x"
  shows "2 powi (ilog2 x) \<le> x" and "x < 2 powi (ilog2 x + 1)"
proof -
  have "2 powi (ilog2 x) \<le> x \<and> x < 2 powi (ilog2 x + 1)"
  proof (cases "1 \<le> x")
    case True
    define n where "n = \<lfloor>x\<rfloor>"
    have n: "0 < n" using True by (simp add: n_def)
    define b where "b = bitlen n"
    have b: "2 ^ nat (b - 1) \<le> n" "n < 2 ^ nat b"
      using bitlen_bounds [OF n] by (simp_all add: b_def)
    have b1: "1 \<le> b" using n by (simp add: b_def bitlen_alt_def)
    have il: "ilog2 x = b - 1" using True by (simp add: ilog2_def n_def b_def)
    have "(2::rat) powi (b - 1) = of_int (2 ^ nat (b - 1))" using b1 by (simp add: power_int_nonneg_exp)
    also have "\<dots> \<le> of_int n" using b(1) by (simp only: of_int_le_iff)
    also have "\<dots> \<le> x" by (simp add: n_def)
    finally have lo: "2 powi (b - 1) \<le> x" .
    have "n + 1 \<le> 2 ^ nat b" using b(2) by simp
    then have "(of_int (n + 1) :: rat) \<le> of_int (2 ^ nat b)" by (simp only: of_int_le_iff)
    moreover have "x < of_int (n + 1)" unfolding n_def by linarith
    moreover have "(2::rat) powi b = of_int (2 ^ nat b)" using b1 by (simp add: power_int_nonneg_exp)
    ultimately have hi: "x < 2 powi b" by simp
    show ?thesis using lo hi by (simp add: il)
  next
    case False
    then have x1: "x < 1" by simp
    define y where "y = 1 / x"
    have y1: "1 < y" using assms x1 by (simp add: y_def)
    define m where "m = \<lceil>y\<rceil> - 1"
    have m: "0 < m" using y1 unfolding m_def by linarith
    define b where "b = bitlen m"
    have b: "2 ^ nat (b - 1) \<le> m" "m < 2 ^ nat b"
      using bitlen_bounds [OF m] by (simp_all add: b_def)
    have b1: "1 \<le> b" using m by (simp add: b_def bitlen_alt_def)
    have il: "ilog2 x = - b" using False by (simp add: ilog2_def y_def m_def b_def)
    have my: "of_int m < y" "y \<le> of_int m + 1" unfolding m_def by linarith+
    have "m + 1 \<le> 2 ^ nat b" using b(2) by simp
    then have "(of_int (m + 1) :: rat) \<le> of_int (2 ^ nat b)" by (simp only: of_int_le_iff)
    moreover have "(of_int (2 ^ nat b) :: rat) = 2 ^ nat b" by simp
    ultimately have yb: "y \<le> 2 ^ nat b" using my(2) by simp
    have "(2 ^ nat (b - 1) :: rat) = of_int (2 ^ nat (b - 1))" by simp
    also have "\<dots> \<le> of_int m" using b(1) by (simp only: of_int_le_iff)
    also have "\<dots> < y" by (rule my(1))
    finally have by': "2 ^ nat (b - 1) < y" .
    have p1: "(2::rat) powi (- b) = 1 / 2 ^ nat b"
      using b1 by (simp add: power_int_minus_divide power_int_nonneg_exp)
    have p2: "(2::rat) powi (- b + 1) = 1 / 2 ^ nat (b - 1)"
    proof -
      have "(2::rat) powi (- b + 1) = 2 powi (- (b - 1))" by simp
      also have "\<dots> = 1 / 2 powi (b - 1)" by (rule power_int_minus_divide)
      also have "(2::rat) powi (b - 1) = 2 ^ nat (b - 1)" using b1 by (simp add: power_int_nonneg_exp)
      finally show ?thesis .
    qed
    have xy: "x = 1 / y" using assms by (simp add: y_def)
    have lo: "2 powi (- b) \<le> x"
      unfolding p1 xy using yb y1 by (simp add: frac_le)
    have hi: "x < 2 powi (- b + 1)"
      unfolding p2 xy using by' by (simp add: frac_less2)
    show ?thesis using lo hi by (simp add: il)
  qed
  then show "2 powi (ilog2 x) \<le> x" and "x < 2 powi (ilog2 x + 1)" by simp_all
qed

lemma ilog2_mono:
  assumes "0 < x" "x \<le> y"
  shows "ilog2 x \<le> ilog2 y"
proof (rule ccontr)
  assume "\<not> ilog2 x \<le> ilog2 y"
  then have "ilog2 y + 1 \<le> ilog2 x" by simp
  then have "(2::rat) powi (ilog2 y + 1) \<le> 2 powi (ilog2 x)" by (rule pow2_mono)
  moreover have "y < 2 powi (ilog2 y + 1)" using assms by (intro ilog2_bounds) simp
  moreover have "2 powi (ilog2 x) \<le> x" using assms by (intro ilog2_bounds)
  ultimately show False using assms(2) by linarith
qed


lemma ulp_alt: "ulp x = 2 powi (ulp_exp x)"
  by (simp add: ulp_def ulp_exp_def)

lemma ulp_pos: "0 < ulp x"
  by (simp add: ulp_def)

lemma rnd64_alt: "x \<noteq> 0 \<Longrightarrow> rnd64 x = of_int (round_half_even (x / ulp x)) * ulp x"
  by (simp add: rnd64_def)

lemma grid_upper:
  assumes "0 < q" "x \<le> of_int N * q"
  shows "of_int (round_half_even (x / q)) * q \<le> of_int N * q"
proof -
  have "x / q \<le> of_int N" using assms by (simp add: pos_divide_le_eq)
  then have "round_half_even (x / q) \<le> round_half_even (of_int N)" by (rule rhe_mono)
  then have "round_half_even (x / q) \<le> N" by (simp add: rhe_of_int)
  then have "(of_int (round_half_even (x / q)) :: rat) \<le> of_int N" by (simp only: of_int_le_iff)
  then show ?thesis using assms(1) by (simp add: mult_right_mono)
qed

lemma grid_lower:
  assumes "0 < q" "of_int N * q \<le> x"
  shows "of_int N * q \<le> of_int (round_half_even (x / q)) * q"
proof -
  have "of_int N \<le> x / q" using assms by (simp add: pos_le_divide_eq)
  then have "round_half_even (of_int N) \<le> round_half_even (x / q)" by (rule rhe_mono)
  then have "N \<le> round_half_even (x / q)" by (simp add: rhe_of_int)
  then have "(of_int N :: rat) \<le> of_int (round_half_even (x / q))" by (simp only: of_int_le_iff)
  then show ?thesis using assms(1) by (simp add: mult_right_mono)
qed

lemma rnd64_nonneg:
  assumes "0 \<le> x"
  shows "0 \<le> rnd64 x"
proof (cases "x = 0")
  case True
  then show ?thesis by (simp add: rnd64_def)
next
  case False
  have "of_int 0 * ulp x \<le> of_int (round_half_even (x / ulp x)) * ulp x"
    using assms by (intro grid_lower ulp_pos) simp
  then show ?thesis using False by (simp add: rnd64_alt)
qed

lemma rnd64_mono_pos:
  assumes "0 < x" "x \<le> y"
  shows "rnd64 x \<le> rnd64 y"
proof -
  have y: "0 < y" using assms by simp
  have il: "ilog2 x \<le> ilog2 y" using assms by (rule ilog2_mono)
  have ax: "\<bar>x\<bar> = x" "\<bar>y\<bar> = y" using assms y by simp_all
  have ee: "ulp_exp x \<le> ulp_exp y" using il by (simp add: ulp_exp_def ax)
  have rx: "rnd64 x = of_int (round_half_even (x / ulp x)) * ulp x"
    using assms by (simp add: rnd64_alt)
  have ry: "rnd64 y = of_int (round_half_even (y / ulp y)) * ulp y"
    using y by (simp add: rnd64_alt)
  show ?thesis
  proof (cases "ulp_exp x = ulp_exp y")
    case True
    then have q: "ulp x = ulp y" by (simp add: ulp_alt)
    have "x / ulp y \<le> y / ulp y" using assms(2) ulp_pos [of y] by (simp add: divide_right_mono)
    then have "round_half_even (x / ulp y) \<le> round_half_even (y / ulp y)" by (rule rhe_mono)
    then have "(of_int (round_half_even (x / ulp y)) :: rat) \<le> of_int (round_half_even (y / ulp y))"
      by (simp only: of_int_le_iff)
    then show ?thesis unfolding rx ry q using ulp_pos [of y] by (simp add: mult_right_mono)
  next
    case False
    with ee have lt: "ulp_exp x < ulp_exp y" by simp
    then have big: "- 1022 < ilog2 y" "ilog2 x < ilog2 y"
      using il by (auto simp: ulp_exp_def ax max_def split: if_splits)
    have ey: "ulp_exp y = ilog2 y - 52" using big by (simp add: ulp_exp_def ax)
    define B :: rat where "B = 2 powi (ilog2 y)"
    have "x < 2 powi (ilog2 x + 1)" using assms(1) by (rule ilog2_bounds)
    also have "\<dots> \<le> B" unfolding B_def using big(2) by (intro pow2_mono) simp
    finally have xB: "x \<le> B" by simp
    have By: "B \<le> y" unfolding B_def using y by (rule ilog2_bounds)
    have Bx: "B = of_int (2 ^ nat (ilog2 y - ulp_exp x)) * ulp x"
      unfolding B_def ulp_alt using lt ey by (intro pow2_split) simp
    have Bq: "B = of_int (2 ^ nat (ilog2 y - ulp_exp y)) * ulp y"
      unfolding B_def ulp_alt using ey by (intro pow2_split) simp
    have "x \<le> of_int (2 ^ nat (ilog2 y - ulp_exp x)) * ulp x" using xB Bx by simp
    then have "rnd64 x \<le> of_int (2 ^ nat (ilog2 y - ulp_exp x)) * ulp x"
      unfolding rx by (intro grid_upper ulp_pos)
    then have "rnd64 x \<le> B" using Bx by simp
    moreover have "of_int (2 ^ nat (ilog2 y - ulp_exp y)) * ulp y \<le> y" using By Bq by simp
    then have "of_int (2 ^ nat (ilog2 y - ulp_exp y)) * ulp y \<le> rnd64 y"
      unfolding ry by (intro grid_lower ulp_pos)
    then have "B \<le> rnd64 y" using Bq by simp
    ultimately show ?thesis by simp
  qed
qed

lemma rnd64_mono:
  assumes "0 \<le> x" "x \<le> y"
  shows "rnd64 x \<le> rnd64 y"
proof (cases "x = 0")
  case True
  then show ?thesis using assms rnd64_nonneg [of y] by (simp add: rnd64_def)
next
  case False
  then show ?thesis using assms by (intro rnd64_mono_pos) simp_all
qed

lemma rnd64_1: "rnd64 1 = 1" by code_simp
lemma rnd64_100: "rnd64 100 = 100" by code_simp
lemma rnd64_70: "rnd64 70 = 70" by code_simp
lemma rnd64_30: "rnd64 30 = 30" by code_simp

subsection \<open>The range and the monotonicity of the score\<close>

lemma lit_0_7_nonneg: "0 \<le> lit_0_7" unfolding lit_0_7_def by (rule rnd64_nonneg) simp
lemma lit_0_3_nonneg: "0 \<le> lit_0_3" unfolding lit_0_3_def by (rule rnd64_nonneg) simp

lemma float_mul_mono:
  assumes "0 \<le> x" "x \<le> y" "0 \<le> c"
  shows "float_mul x c \<le> float_mul y c" and "0 \<le> float_mul x c"
  unfolding float_mul_def using assms
  by (auto intro!: rnd64_mono rnd64_nonneg mult_right_mono)

lemma ratio_score:
  assumes "0 \<le> a" "a \<le> a'" "a' \<le> b" "0 < b"
  shows "0 \<le> float_mul (int_truediv a b) 100"
    and "float_mul (int_truediv a b) 100 \<le> float_mul (int_truediv a' b) 100"
    and "float_mul (int_truediv a' b) 100 \<le> 100"
proof -
  have q: "(0::rat) \<le> of_int a / of_int b" "(of_int a :: rat) / of_int b \<le> of_int a' / of_int b"
    "(of_int a' :: rat) / of_int b \<le> 1"
    using assms by (simp_all add: divide_right_mono)
  have d0: "0 \<le> int_truediv a b" unfolding int_truediv_def using q(1) by (rule rnd64_nonneg)
  have d1: "int_truediv a b \<le> int_truediv a' b" unfolding int_truediv_def using q(1,2) by (rule rnd64_mono)
  have "rnd64 (of_int a' / of_int b) \<le> rnd64 1" using q by (intro rnd64_mono) simp_all
  then have d2: "int_truediv a' b \<le> 1" by (simp add: int_truediv_def rnd64_1)
  show "0 \<le> float_mul (int_truediv a b) 100"
    by (rule float_mul_mono(2) [OF d0 order_refl]) simp
  show "float_mul (int_truediv a b) 100 \<le> float_mul (int_truediv a' b) 100"
    using d0 d1 by (intro float_mul_mono(1)) simp_all
  have "float_mul (int_truediv a' b) 100 \<le> float_mul 1 100"
    using d0 d1 d2 by (intro float_mul_mono(1)) simp_all
  then show "float_mul (int_truediv a' b) 100 \<le> 100" by (simp add: float_mul_def rnd64_100)
qed

text \<open>The value of the skill score.\<close>

lemma skill_value_mono:
  assumes fin: "finite (req_skills m)"
    and sub: "set (skills c1) \<inter> req_skills m \<subseteq> set (skills c2) \<inter> req_skills m"
  shows "0 \<le> as_float (fst (skill_part ord m c1))"
    and "as_float (fst (skill_part ord m c1)) \<le> as_float (fst (skill_part ord' m c2))"
    and "as_float (fst (skill_part ord' m c2)) \<le> 100"
proof -
  have "0 \<le> as_float (fst (skill_part ord m c1)) \<and>
        as_float (fst (skill_part ord m c1)) \<le> as_float (fst (skill_part ord' m c2)) \<and>
        as_float (fst (skill_part ord' m c2)) \<le> 100"
  proof (cases "req_skills m = {}")
    case True
    then show ?thesis by (simp add: skill_part_def float_of_int_100)
  next
    case False
    let ?a = "int (card (set (skills c1) \<inter> req_skills m))"
    let ?a' = "int (card (set (skills c2) \<inter> req_skills m))"
    let ?b = "int (card (req_skills m))"
    have "card (set (skills c1) \<inter> req_skills m) \<le> card (set (skills c2) \<inter> req_skills m)"
      using sub fin by (intro card_mono) simp_all
    then have 1: "?a \<le> ?a'" by simp
    have "card (set (skills c2) \<inter> req_skills m) \<le> card (req_skills m)"
      using fin by (intro card_mono) simp_all
    then have 2: "?a' \<le> ?b" by simp
    have 3: "0 < ?b" using fin False by (simp add: card_gt_0_iff)
    have 0: "0 \<le> ?a" by simp
    note r = ratio_score [OF 0 1 2 3]
    show ?thesis using False r by (simp add: skill_part_def Let_def)
  qed
  then show "0 \<le> as_float (fst (skill_part ord m c1))"
    and "as_float (fst (skill_part ord m c1)) \<le> as_float (fst (skill_part ord' m c2))"
    and "as_float (fst (skill_part ord' m c2)) \<le> 100" by simp_all
qed

lemma exp_value_mono:
  assumes "0 \<le> years_experience c1" "years_experience c1 \<le> years_experience c2"
  shows "0 \<le> as_float (exp_part m c1)"
    and "as_float (exp_part m c1) \<le> as_float (exp_part m c2)"
    and "as_float (exp_part m c2) \<le> 100"
proof -
  let ?y1 = "years_experience c1" and ?y2 = "years_experience c2"
  have "0 \<le> as_float (exp_part m c1) \<and> as_float (exp_part m c1) \<le> as_float (exp_part m c2) \<and>
        as_float (exp_part m c2) \<le> 100"
  proof (cases "min_exp m \<le> ?y2")
    case hi: True
    show ?thesis
    proof (cases "min_exp m \<le> ?y1")
      case True
      then show ?thesis using hi by (simp add: exp_part_def float_of_int_100)
    next
      case False
      then have lt: "?y1 < min_exp m" "0 < min_exp m" using assms(1) by simp_all
      have le: "?y1 \<le> min_exp m" using lt by simp
      note r = ratio_score [OF assms(1) order_refl le lt(2)]
      show ?thesis using hi False lt r by (simp add: exp_part_def float_of_int_100)
    qed
  next
    case False
    then have lt: "?y2 < min_exp m" "?y1 < min_exp m" "0 < min_exp m" using assms by simp_all
    have le: "?y2 \<le> min_exp m" using lt by simp
    note r = ratio_score [OF assms(1,2) le lt(3)]
    show ?thesis using lt r by (simp add: exp_part_def)
  qed
  then show "0 \<le> as_float (exp_part m c1)"
    and "as_float (exp_part m c1) \<le> as_float (exp_part m c2)"
    and "as_float (exp_part m c2) \<le> 100" by simp_all
qed


lemma calculate_score_blend:
  "fst (calculate_score ord m c) =
     blend (as_float (fst (skill_part ord m c))) (as_float (exp_part m c))"
  by (simp add: calculate_score_def blend_def split: prod.splits)

lemma float_round1_mono:
  assumes "0 \<le> x" "x \<le> y"
  shows "float_round1 x \<le> float_round1 y"
proof -
  have "round_half_even (x * 10) \<le> round_half_even (y * 10)" using assms by (intro rhe_mono) simp
  then have le: "(of_int (round_half_even (x * 10)) :: rat) / 10 \<le> of_int (round_half_even (y * 10)) / 10"
    by simp
  have "round_half_even (of_int 0) \<le> round_half_even (x * 10)" using assms by (intro rhe_mono) simp
  then have "0 \<le> round_half_even (x * 10)" by (simp only: rhe_of_int)
  then have "(0::rat) \<le> of_int (round_half_even (x * 10)) / 10" by simp
  then show ?thesis unfolding float_round1_def using le by (rule rnd64_mono)
qed

lemma blend_mono:
  assumes "0 \<le> s" "s \<le> s'" "0 \<le> e" "e \<le> e'"
  shows "blend s e \<le> blend s' e'"
proof -
  have a: "0 \<le> float_mul s lit_0_7" "float_mul s lit_0_7 \<le> float_mul s' lit_0_7"
    using assms lit_0_7_nonneg by (simp_all add: float_mul_mono)
  have b: "0 \<le> float_mul e lit_0_3" "float_mul e lit_0_3 \<le> float_mul e' lit_0_3"
    using assms lit_0_3_nonneg by (simp_all add: float_mul_mono)
  have "float_add (float_mul s lit_0_7) (float_mul e lit_0_3) \<le>
        float_add (float_mul s' lit_0_7) (float_mul e' lit_0_3)"
    unfolding float_add_def using a b by (intro rnd64_mono) simp_all
  moreover have "0 \<le> float_add (float_mul s lit_0_7) (float_mul e lit_0_3)"
    unfolding float_add_def using a b by (intro rnd64_nonneg) simp
  ultimately show ?thesis unfolding blend_def by (intro float_round1_mono)
qed

lemma blend_0: "blend 0 0 = 0"
  by (simp add: blend_def float_mul_def float_add_def float_round1_def rnd64_0 round_half_even_def)

lemma blend_100: "blend 100 100 = 100"
proof -
  have "float_add 70 30 = 100" by code_simp
  moreover have "float_round1 100 = 100" by code_simp
  ultimately show ?thesis by (simp add: blend_def mul_100_0_7 mul_100_0_3)
qed

lemma blend_decimal:
  assumes "0 \<le> s" "s \<le> 100" "0 \<le> e" "e \<le> 100"
  shows "\<exists>k::int. 0 \<le> k \<and> k \<le> 1000 \<and> blend s e = rnd64 (of_int k / 10)"
proof -
  define f where "f = float_add (float_mul s lit_0_7) (float_mul e lit_0_3)"
  define k where "k = round_half_even (f * 10)"
  have a: "0 \<le> float_mul s lit_0_7" "float_mul s lit_0_7 \<le> 70"
    using assms lit_0_7_nonneg float_mul_mono [of s 100 lit_0_7] by (simp_all add: mul_100_0_7)
  have b: "0 \<le> float_mul e lit_0_3" "float_mul e lit_0_3 \<le> 30"
    using assms lit_0_3_nonneg float_mul_mono [of e 100 lit_0_3] by (simp_all add: mul_100_0_3)
  have f0: "0 \<le> f" unfolding f_def float_add_def using a b by (intro rnd64_nonneg) simp
  have "f \<le> rnd64 100" unfolding f_def float_add_def using a b by (intro rnd64_mono) simp_all
  then have f1: "f \<le> 100" by (simp add: rnd64_100)
  have "round_half_even (of_int 0) \<le> k" unfolding k_def using f0 by (intro rhe_mono) simp
  then have k0: "0 \<le> k" by (simp only: rhe_of_int)
  have "k \<le> round_half_even (of_int 1000)" unfolding k_def using f1 by (intro rhe_mono) simp
  then have k1: "k \<le> 1000" by (simp only: rhe_of_int)
  have "blend s e = rnd64 (of_int k / 10)" by (simp add: blend_def f_def k_def float_round1_def)
  then show ?thesis using k0 k1 by blast
qed

text \<open>
  C6. For a candidate with non-negative experience and any requirement profile, the
  final score lies between 0 and 100 and is rounded to one decimal: it is the float
  nearest to \<open>k / 10\<close> for a whole number \<open>k\<close> between 0 and 1000.
\<close>

theorem final_score_range:
  assumes "0 \<le> years_experience cand"
  shows "0 \<le> fst (calculate_score ord (JobMatcher rs me) cand) \<and>
         fst (calculate_score ord (JobMatcher rs me) cand) \<le> 100 \<and>
         (\<exists>k::int. 0 \<le> k \<and> k \<le> 1000 \<and>
            fst (calculate_score ord (JobMatcher rs me) cand) = rnd64 (of_int k / 10))"
proof -
  let ?m = "JobMatcher rs me"
  let ?s = "as_float (fst (skill_part ord ?m cand))" and ?e = "as_float (exp_part ?m cand)"
  have fin: "finite (req_skills ?m)" by (simp add: JobMatcher_def)
  have s: "0 \<le> ?s" "?s \<le> 100"
    by (rule skill_value_mono(1) [OF fin subset_refl], rule skill_value_mono(3) [OF fin subset_refl])
  have e: "0 \<le> ?e" "?e \<le> 100"
    by (rule exp_value_mono(1) [OF assms order_refl], rule exp_value_mono(3) [OF assms order_refl])
  have "blend 0 0 \<le> blend ?s ?e" using s e by (intro blend_mono) simp_all
  moreover have "blend ?s ?e \<le> blend 100 100" using s e by (intro blend_mono) simp_all
  ultimately show ?thesis
    using blend_decimal [OF s e] by (simp add: calculate_score_blend blend_0 blend_100)
qed

theorem final_score_range_witness:
  "0 \<le> fst (calculate_score sorted_list_of_set (JobMatcher [''python'', ''sql''] 3) junior) \<and>
   fst (calculate_score sorted_list_of_set (JobMatcher [''python'', ''sql''] 3) junior) \<le> 100 \<and>
   (\<exists>k::int. 0 \<le> k \<and> k \<le> 1000 \<and>
      fst (calculate_score sorted_list_of_set (JobMatcher [''python'', ''sql''] 3) junior) =
        rnd64 (of_int k / 10))"
proof -
  have "0 \<le> years_experience junior" by (simp add: junior_def)
  then show ?thesis by (rule final_score_range)
qed

text \<open>
  C7. With the requirement profile fixed, a candidate with at least as much experience
  (not negative) and at least the same required skills has at least the same final
  score; so more experience with the same skills never lowers the score, and a larger
  overlap with the required skills at the same experience never lowers it.
\<close>

theorem final_score_monotone:
  assumes "0 \<le> years_experience c1" "years_experience c1 \<le> years_experience c2"
    and "set (skills c1) \<inter> req_skills (JobMatcher rs me) \<subseteq>
         set (skills c2) \<inter> req_skills (JobMatcher rs me)"
  shows "fst (calculate_score ord (JobMatcher rs me) c1) \<le>
         fst (calculate_score ord' (JobMatcher rs me) c2)"
proof -
  let ?m = "JobMatcher rs me"
  have fin: "finite (req_skills ?m)" by (simp add: JobMatcher_def)
  have s: "0 \<le> as_float (fst (skill_part ord ?m c1))"
    "as_float (fst (skill_part ord ?m c1)) \<le> as_float (fst (skill_part ord' ?m c2))"
    by (rule skill_value_mono(1) [OF fin assms(3)], rule skill_value_mono(2) [OF fin assms(3)])
  have e: "0 \<le> as_float (exp_part ?m c1)" "as_float (exp_part ?m c1) \<le> as_float (exp_part ?m c2)"
    by (rule exp_value_mono(1) [OF assms(1,2)], rule exp_value_mono(2) [OF assms(1,2)])
  show ?thesis
    unfolding calculate_score_blend using s e by (rule blend_mono)
qed

theorem final_score_monotone_witness:
  "fst (calculate_score sorted_list_of_set (JobMatcher [''python'', ''sql''] 3) junior) \<le>
   fst (calculate_score sorted_list_of_set (JobMatcher [''python'', ''sql''] 3) senior)"
proof -
  have "0 \<le> years_experience junior" "years_experience junior \<le> years_experience senior"
    by (simp_all add: junior_def senior_def)
  moreover have "set (skills junior) \<inter> req_skills (JobMatcher [''python'', ''sql''] 3) \<subseteq>
      set (skills senior) \<inter> req_skills (JobMatcher [''python'', ''sql''] 3)"
    by (auto simp: junior_def senior_def)
  ultimately show ?thesis by (rule final_score_monotone)
qed

subsection \<open>Normalization\<close>

lemma sub_ws_nonspace: "\<not> is_space c \<Longrightarrow> sub_ws (c # cs) = c # sub_ws cs"
  by (cases cs) simp_all

lemma sub_ws_space: "is_space c \<Longrightarrow> sub_ws (c # cs) = CHR '' '' # sub_ws (dropWhile is_space cs)"
  by (induction cs arbitrary: c) simp_all

lemma strip_rstrip: "strip s = rstrip (dropWhile is_space s)"
  by (simp add: strip_def rstrip_def)

lemma rstrip_Nil: "rstrip [] = []"
  by (simp add: rstrip_def)

lemma rstrip_Cons:
  "rstrip (a # y) = (if is_space a \<and> rstrip y = [] then [] else a # rstrip y)"
  by (auto simp: rstrip_def dropWhile_append)

lemma is_space_blank: "is_space (CHR '' '')"
  by code_simp

lemma sub_ws_head:
  assumes "z = [] \<or> \<not> is_space (hd z)"
  shows "dropWhile is_space (sub_ws z) = sub_ws z"
  using assms by (cases z) (auto simp: sub_ws_nonspace)

lemma dropWhile_head: "dropWhile P xs = [] \<or> \<not> P (hd (dropWhile P xs))"
  using hd_dropWhile by blast

lemma split_when_shape:
  "\<exists>w ws. split_when p cs = w # ws \<and> (w = [] \<longleftrightarrow> cs = [] \<or> p (hd cs))"
  by (cases cs) (auto split: list.splits)

lemma split_ws_Nil: "split_ws [] = []"
  by (simp add: split_ws_def)

lemma split_ws_space: "is_space c \<Longrightarrow> split_ws (c # cs) = split_ws cs"
  by (simp add: split_ws_def)

lemma split_ws_nonempty: "w \<in> set (split_ws s) \<Longrightarrow> w \<noteq> []"
  by (simp add: split_ws_def)

lemma join_Cons_Cons: "join sep ((c # w) # rest) = c # join sep (w # rest)"
  by (cases rest) simp_all

lemma join_empty_iff:
  assumes "\<And>w. w \<in> set ws \<Longrightarrow> w \<noteq> []"
  shows "join sep ws = [] \<longleftrightarrow> ws = []"
proof (cases ws)
  case Nil
  then show ?thesis by simp
next
  case (Cons w rest)
  then show ?thesis using assms by (cases rest) auto
qed

lemma join_split_nonspace:
  assumes "\<not> is_space c"
  shows "join '' '' (split_ws (c # cs)) =
     (if cs = [] \<or> is_space (hd cs)
      then (if join '' '' (split_ws cs) = [] then [c] else c # CHR '' '' # join '' '' (split_ws cs))
      else c # join '' '' (split_ws cs))"
proof -
  obtain w ws where sw: "split_when is_space cs = w # ws"
    and w: "w = [] \<longleftrightarrow> cs = [] \<or> is_space (hd cs)"
    using split_when_shape [of is_space cs] by blast
  let ?r = "filter (\<lambda>w. w \<noteq> []) ws"
  have a: "split_ws (c # cs) = (c # w) # ?r"
    using assms by (simp add: split_ws_def sw)
  have b: "split_ws cs = (if w = [] then ?r else w # ?r)"
    by (simp add: split_ws_def sw)
  have e: "join '' '' ?r = [] \<longleftrightarrow> ?r = []"
    by (rule join_empty_iff) simp
  show ?thesis
  proof (cases "w = []")
    case True
    then show ?thesis using w a b e by (cases ?r) (simp_all)
  next
    case False
    then show ?thesis using w a b by (simp add: join_Cons_Cons)
  qed
qed

lemma normalize_join_split: "strip (sub_ws s) = join '' '' (split_ws s)"
proof (induction s)
  case Nil
  show ?case by (simp add: strip_def split_ws_Nil)
next
  case (Cons c cs)
  show ?case
  proof (cases "is_space c")
    case True
    have "strip (sub_ws (c # cs)) = strip (sub_ws (dropWhile is_space cs))"
      using True by (simp add: sub_ws_space strip_rstrip is_space_blank)
    also have "\<dots> = strip (sub_ws cs)"
    proof (cases cs)
      case Nil
      then show ?thesis by simp
    next
      case (Cons d ds)
      show ?thesis
      proof (cases "is_space d")
        case True
        then show ?thesis
          by (simp add: Cons sub_ws_space strip_rstrip is_space_blank)
      next
        case False
        then show ?thesis by (simp add: Cons)
      qed
    qed
    finally show ?thesis using True Cons.IH by (simp add: split_ws_space)
  next
    case False
    have g: "strip (sub_ws (c # cs)) = c # rstrip (sub_ws cs)"
      using False by (simp add: sub_ws_nonspace strip_rstrip rstrip_Cons)
    show ?thesis
    proof (cases "cs = [] \<or> is_space (hd cs)")
      case True
      have "rstrip (sub_ws cs) =
          (if strip (sub_ws cs) = [] then [] else CHR '' '' # strip (sub_ws cs))"
      proof (cases cs)
        case Nil
        then show ?thesis by (simp add: rstrip_Nil strip_rstrip)
      next
        case (Cons d ds)
        with True have d: "is_space d" by simp
        let ?y = "sub_ws (dropWhile is_space ds)"
        have y: "dropWhile is_space ?y = ?y"
          by (rule sub_ws_head) (rule dropWhile_head)
        have "strip (sub_ws cs) = rstrip ?y"
          using d by (simp add: Cons sub_ws_space strip_rstrip is_space_blank y)
        moreover have "rstrip (sub_ws cs) = (if rstrip ?y = [] then [] else CHR '' '' # rstrip ?y)"
          using d by (simp add: Cons sub_ws_space rstrip_Cons is_space_blank)
        ultimately show ?thesis by simp
      qed
      then show ?thesis
        using True False g Cons.IH by (simp add: join_split_nonspace)
    next
      case nb: False
      then have "dropWhile is_space (sub_ws cs) = sub_ws cs"
        by (intro sub_ws_head) simp
      then have "rstrip (sub_ws cs) = strip (sub_ws cs)" by (simp add: strip_rstrip)
      then show ?thesis
        using nb False g Cons.IH by (simp add: join_split_nonspace)
    qed
  qed
qed

lemma normalize_text_spec: "normalize_text s = normalized_spec s"
  by (simp add: normalize_text_def normalized_spec_def normalize_join_split)

subsection \<open>The required skills and the scenario\<close>

lemma ord_singleton: "valid_order ord \<Longrightarrow> ord {x} = [x]"
proof -
  assume v: "valid_order ord"
  have s: "set (ord {x}) = {x}" and d: "distinct (ord {x})"
    using v by (simp_all add: valid_order_def)
  show "ord {x} = [x]"
  proof (cases "ord {x}")
    case Nil
    with s show ?thesis by simp
  next
    case (Cons a as)
    with s d have "a = x" "set as \<subseteq> {x}" "x \<notin> set as" by auto
    then have "as = []" by (cases as) auto
    with Cons \<open>a = x\<close> show ?thesis by simp
  qed
qed

text \<open>
  C10. The set stored by the constructor is the set of the normal forms of the given
  strings (lower case, tokens separated by single spaces, no whitespace at either
  end), a set, so without duplicates; \<open>calculate_score\<close> compares against exactly this
  set: the missing skills are its members that the candidate lacks, each once, and the
  skill percentage is computed from the number of its members the candidate has and
  its size.
\<close>

theorem required_skills_normalized:
  assumes "valid_order ord"
  shows "req_skills (JobMatcher rs me) = normalized_spec ` set rs \<and>
     set (fst (snd (calculate_score ord (JobMatcher rs me) cand))) =
       normalized_spec ` set rs - set (skills cand) \<and>
     distinct (fst (snd (calculate_score ord (JobMatcher rs me) cand))) \<and>
     snd (snd (calculate_score ord (JobMatcher rs me) cand)) =
       (if rs = [] then PyInt 100
        else PyFloat (float_round1 (float_mul
               (int_truediv (int (card (set (skills cand) \<inter> normalized_spec ` set rs)))
                            (int (card (normalized_spec ` set rs)))) 100)))"
proof -
  let ?N = "normalized_spec ` set rs"
  have r: "req_skills (JobMatcher rs me) = ?N"
    by (simp add: JobMatcher_def normalize_text_spec [abs_def])
  have e: "?N = {} \<longleftrightarrow> rs = []" by simp
  have fin: "finite (?N - set (skills cand))" by simp
  have o: "set (ord (?N - set (skills cand))) = ?N - set (skills cand)"
    "distinct (ord (?N - set (skills cand)))"
    using assms fin unfolding valid_order_def by blast+
  have sp: "skill_part ord (JobMatcher rs me) cand =
      (if rs = [] then (PyInt 100, [])
       else (PyFloat (float_mul (int_truediv (int (card (set (skills cand) \<inter> ?N))) (int (card ?N))) 100),
             ord (?N - set (skills cand))))"
    unfolding skill_part_def r Let_def e by simp
  show ?thesis
  proof (cases "rs = []")
    case True
    then show ?thesis unfolding calculate_score_def sp using r by simp
  next
    case False
    then show ?thesis unfolding calculate_score_def sp using r o by simp
  qed
qed

theorem required_skills_normalized_witness:
  "req_skills (JobMatcher [''  Machine   Learning '', ''SQL'', ''sql''] 2) =
     {''machine learning'', ''sql''} \<and>
   set (fst (snd (calculate_score sorted_list_of_set
          (JobMatcher [''  Machine   Learning '', ''SQL'', ''sql''] 2) junior))) =
     {''machine learning'', ''sql''} - set (skills junior)"
proof -
  have n: "normalized_spec ` set [''  Machine   Learning '', ''SQL'', ''sql''] =
      {''machine learning'', ''sql''}"
  proof -
    have "map normalized_spec [''  Machine   Learning '', ''SQL'', ''sql''] =
        [''machine learning'', ''sql'', ''sql'']" by code_simp
    then have "set (map normalized_spec [''  Machine   Learning '', ''SQL'', ''sql'']) =
        set [''machine learning'', ''sql'', ''sql'']" by (rule arg_cong)
    then show ?thesis by simp
  qed
  show ?thesis
    using required_skills_normalized [OF valid_sorted,
        of "[''  Machine   Learning '', ''SQL'', ''sql'']" 2 junior]
    unfolding n by blast
qed

text \<open>
  C1. Scenario A: the text of Jane Doe against the requirements python, sql, aws,
  docker and three years gives the skills python, sql, aws, five years of experience,
  a skill score of 75.0, an experience score of 100, the final score 82.5, the
  recommendation Interview and docker as the only missing skill.
\<close>

theorem scenario_A:
  assumes "valid_order ord1" "valid_order ord2"
  shows "\<exists>c. parse ord1 scenario_text = Inr c \<and>
     set (skills c) = {''python'', ''sql'', ''aws''} \<and>
     years_experience c = 5 \<and>
     fst (skill_part ord2 scenario_matcher c) = PyFloat 75 \<and>
     exp_part scenario_matcher c = PyInt 100 \<and>
     calculate_score ord2 scenario_matcher c = (165 / 2, [''docker''], PyFloat 75) \<and>
     recommend (fst (calculate_score ord2 scenario_matcher c)) = ''Interview''"
proof -
  define c where "c = \<lparr> name = extract_name scenario_text,
      email = extract_email scenario_text, phone = extract_phone scenario_text,
      skills = extract_skills ord1 scenario_text, years_experience = 5,
      raw_text = scenario_text \<rparr>"
  let ?c = c
  have n: "normalize_text scenario_text =
      ''jane doe jane.doe@example.com 555-123-4567 skills: python, sql, aws 5 years experience''"
    by code_simp
  have f: "found_skills scenario_text = [''python'', ''sql'', ''aws'']"
    unfolding found_skills_scan n by code_simp
  have sk: "set (skills ?c) = {''python'', ''sql'', ''aws''}"
    using assms(1) by (simp add: c_def extract_skills_set f)
  have y: "extract_experience scenario_text = Inr 5"
    unfolding extract_experience_def n by code_simp
  have pc: "parse ord1 scenario_text = Inr c" by (simp add: parse_def y c_def)
  have ye: "years_experience ?c = 5" by (simp add: c_def)
  have "map normalize_text [''python'', ''sql'', ''aws'', ''docker''] =
      [''python'', ''sql'', ''aws'', ''docker'']" by code_simp
  then have rq: "req_skills scenario_matcher = {''python'', ''sql'', ''aws'', ''docker''}"
    by (simp add: scenario_matcher_def JobMatcher_def)
  have me: "min_exp scenario_matcher = 3" by (simp add: scenario_matcher_def JobMatcher_def)
  have i: "set (skills ?c) \<inter> req_skills scenario_matcher = {''python'', ''sql'', ''aws''}"
    unfolding sk rq by auto
  have d: "req_skills scenario_matcher - set (skills ?c) = {''docker''}"
    unfolding sk rq by auto
  have c3: "card {''python'', ''sql'', ''aws''} = 3" by simp
  have c4: "card (req_skills scenario_matcher) = 4" unfolding rq by simp
  have q: "float_mul (int_truediv 3 4) 100 = 75" by code_simp
  have sp: "skill_part ord2 scenario_matcher ?c = (PyFloat 75, [''docker''])"
    unfolding skill_part_def Let_def i d c3 c4
    using assms(2) by (simp add: rq q ord_singleton)
  have ep: "exp_part scenario_matcher ?c = PyInt 100"
    by (simp add: exp_part_def ye me)
  have a: "float_mul 75 lit_0_7 = 105 / 2" by code_simp
  have b: "float_mul (float_of_int 100) lit_0_3 = 30" by code_simp
  have s: "float_add (105 / 2) 30 = 165 / 2" by code_simp
  have r: "float_round1 (165 / 2) = 165 / 2" by code_simp
  have r75: "float_round1 75 = 75" by code_simp
  have cs: "calculate_score ord2 scenario_matcher ?c = (165 / 2, [''docker''], PyFloat 75)"
    by (simp add: calculate_score_def sp ep a b s r r75)
  have rec: "recommend (165 / 2) = ''Interview''" by (simp add: recommend_def)
  have fsp: "fst (skill_part ord2 scenario_matcher c) = PyFloat 75"
    unfolding sp by simp
  have frec: "recommend (fst (calculate_score ord2 scenario_matcher c)) = ''Interview''"
    unfolding cs fst_conv by (rule rec)
  show ?thesis
    by (intro exI [of _ c] conjI pc sk ye fsp ep cs frec)
qed

theorem scenario_A_witness:
  "\<exists>c. parse sorted_list_of_set scenario_text = Inr c \<and>
     set (skills c) = {''python'', ''sql'', ''aws''} \<and>
     calculate_score rev_sorted scenario_matcher c = (165 / 2, [''docker''], PyFloat 75)"
  using scenario_A [OF valid_sorted valid_rev_sorted]
  by (elim exE conjE, intro exI conjI) assumption+

subsection \<open>The matcher, by membership\<close>

lemma takeWhile_len:
  "k \<le> length (takeWhile P xs) \<longleftrightarrow> k \<le> length xs \<and> list_all P (take k xs)"
proof (induction xs arbitrary: k)
  case Nil
  then show ?case by simp
next
  case (Cons x xs)
  then show ?case by (cases k) auto
qed

lemma run_le: "k \<le> run P t i \<longleftrightarrow> i + k \<le> length t \<and> list_all P (substr t i (i + k)) \<or> k = 0"
  by (cases "k = 0") (auto simp: run_def takeWhile_len substr_def)

lemma matches_Cls:
  "(e, g) \<in> set (matches (Cls P lo hi) t i) \<longleftrightarrow>
     g = None \<and> (\<exists>k. e = i + k \<and> lo \<le> k \<and> k \<le> run P t i \<and> (case hi of None \<Rightarrow> True | Some h \<Rightarrow> k \<le> h))"
  by (auto simp: Let_def run_def split: option.splits)

lemma matches_Lit:
  "(e, g) \<in> set (matches (Lit s) t i) \<longleftrightarrow>
     g = None \<and> e = i + length s \<and> take (length s) (drop i t) = s"
  by auto

lemma matches_Seq:
  "(e, g) \<in> set (matches (Seq r1 r2) t i) \<longleftrightarrow>
     (\<exists>e1 g1 g2. (e1, g1) \<in> set (matches r1 t i) \<and> (e, g2) \<in> set (matches r2 t e1) \<and>
        g = (case g2 of None \<Rightarrow> g1 | Some x \<Rightarrow> Some x))"
  (is "?L \<longleftrightarrow> ?R")
proof
  assume ?L
  then have "(e, g) \<in> (\<Union>x\<in>set (matches r1 t i). set (case x of (e1, g1) \<Rightarrow>
        map (\<lambda>(e2, g2). (e2, case g2 of None \<Rightarrow> g1 | Some x \<Rightarrow> Some x)) (matches r2 t e1)))"
    by (simp only: matches.simps set_concat set_map image_image)
  then obtain x where x: "x \<in> set (matches r1 t i)"
    and m: "(e, g) \<in> set (case x of (e1, g1) \<Rightarrow>
        map (\<lambda>(e2, g2). (e2, case g2 of None \<Rightarrow> g1 | Some x \<Rightarrow> Some x)) (matches r2 t e1))"
    by blast
  obtain e1 g1 where xe: "x = (e1, g1)" by (cases x)
  from m obtain y where y: "y \<in> set (matches r2 t e1)"
    and eg: "(e, g) = (case y of (e2, g2) \<Rightarrow> (e2, case g2 of None \<Rightarrow> g1 | Some x \<Rightarrow> Some x))"
    unfolding xe by auto
  obtain e2 g2 where ye: "y = (e2, g2)" by (cases y)
  from eg have "e = e2" "g = (case g2 of None \<Rightarrow> g1 | Some x \<Rightarrow> Some x)"
    unfolding ye by simp_all
  with x y show ?R unfolding xe ye by blast
next
  assume ?R
  then obtain e1 g1 g2 where a: "(e1, g1) \<in> set (matches r1 t i)"
    and b: "(e, g2) \<in> set (matches r2 t e1)"
    and c: "g = (case g2 of None \<Rightarrow> g1 | Some x \<Rightarrow> Some x)" by blast
  have "(e, g) \<in> set (map (\<lambda>(e2, g2). (e2, case g2 of None \<Rightarrow> g1 | Some x \<Rightarrow> Some x))
      (matches r2 t e1))"
    using b c by force
  then show ?L using a by force
qed

lemma matches_Grp:
  "(e, g) \<in> set (matches (Grp r) t i) \<longleftrightarrow> g = Some (i, e) \<and> (\<exists>g'. (e, g') \<in> set (matches r t i))"
  by (force simp: image_iff)

lemma matches_year:
  "(e, g) \<in> set (matches (Lit ''year'') t i) \<longleftrightarrow>
     g = None \<and> e = i + 4 \<and> take 4 (drop i t) = ''year''"
proof -
  have l: "length ''year'' = 4" by simp
  show ?thesis unfolding matches_Lit l ..
qed

lemma years_tail1:
  "(e, g) \<in> set (matches (Seq (Lit ''year'') (Cls (one_of ''s'') 0 (Some 1))) t i) \<longleftrightarrow>
     g = None \<and> take 4 (drop i t) = ''year'' \<and>
     (\<exists>s. s \<le> 1 \<and> s \<le> run (one_of ''s'') t (i + 4) \<and> e = i + 4 + s)"
  unfolding matches_Seq matches_Cls matches_year by auto

lemma years_tail2:
  "(e, g) \<in> set (matches (Seq (Cls is_space 0 None)
        (Seq (Lit ''year'') (Cls (one_of ''s'') 0 (Some 1)))) t i) \<longleftrightarrow>
     g = None \<and> (\<exists>w s. w \<le> run is_space t i \<and> take 4 (drop (i + w) t) = ''year'' \<and>
        s \<le> 1 \<and> s \<le> run (one_of ''s'') t (i + w + 4) \<and> e = i + w + 4 + s)"
  unfolding matches_Seq [of _ _ "Cls is_space 0 None"] years_tail1 matches_Cls by auto

lemma years_tail3:
  "(e, g) \<in> set (matches (Seq (Cls (one_of ''+'') 0 (Some 1)) (Seq (Cls is_space 0 None)
        (Seq (Lit ''year'') (Cls (one_of ''s'') 0 (Some 1))))) t i) \<longleftrightarrow>
     g = None \<and> (\<exists>p w s. p \<le> 1 \<and> p \<le> run (one_of ''+'') t i \<and>
        w \<le> run is_space t (i + p) \<and> take 4 (drop (i + p + w) t) = ''year'' \<and>
        s \<le> 1 \<and> s \<le> run (one_of ''s'') t (i + p + w + 4) \<and> e = i + p + w + 4 + s)"
  unfolding matches_Seq [of _ _ "Cls (one_of ''+'') 0 (Some 1)"] years_tail2 matches_Cls by auto

lemma years_match_iff:
  "(e, g) \<in> set (matches years_re t i) \<longleftrightarrow>
     (\<exists>k p w s. 1 \<le> k \<and> k \<le> run is_decimal t i \<and>
        p \<le> 1 \<and> p \<le> run (one_of ''+'') t (i + k) \<and>
        w \<le> run is_space t (i + k + p) \<and>
        take 4 (drop (i + k + p + w) t) = ''year'' \<and>
        s \<le> 1 \<and> s \<le> run (one_of ''s'') t (i + k + p + w + 4) \<and>
        e = i + k + p + w + 4 + s \<and> g = Some (i, i + k))"
  unfolding years_re_def matches_Seq [of _ _ "Grp (Cls is_decimal 1 None)"] years_tail3
    matches_Grp matches_Cls
  by auto

subsection \<open>The scan of findall\<close>

lemma findall_sound:
  "(i, e, g) \<in> set (findall_from r t nxt js) \<Longrightarrow> i \<in> set js \<and> (e, g) \<in> set (matches r t i)"
proof (induction js arbitrary: nxt)
  case Nil
  then show ?case by simp
next
  case (Cons a js)
  then show ?case
    by (auto split: if_splits list.splits)
qed

lemma findall_cover:
  assumes "j \<in> set js" "sorted_wrt (<) js" "matches r t j \<noteq> []"
  shows "j < nxt \<or> (\<exists>e g. (j, e, g) \<in> set (findall_from r t nxt js)) \<or>
         (\<exists>i e g. (i, e, g) \<in> set (findall_from r t nxt js) \<and> i < j \<and> j < e)"
  using assms
proof (induction js arbitrary: nxt)
  case Nil
  then show ?case by simp
next
  case (Cons a js)
  show ?case
  proof (cases "j = a")
    case True
    show ?thesis
    proof (cases "a < nxt")
      case True
      with \<open>j = a\<close> show ?thesis by simp
    next
      case False
      obtain e g ms where "matches r t a = (e, g) # ms"
        using Cons.prems(3) True by (cases "matches r t a") auto
      then show ?thesis using False True by auto
    qed
  next
    case False
    then have j: "j \<in> set js" "a < j" "sorted_wrt (<) js"
      using Cons.prems by auto
    show ?thesis
    proof (cases "a < nxt \<or> matches r t a = []")
      case True
      then have "findall_from r t nxt (a # js) = findall_from r t nxt js"
        by (auto split: list.splits)
      then show ?thesis using Cons.IH [OF j(1,3) Cons.prems(3), of nxt] by simp
    next
      case False
      then obtain e g ms where m: "matches r t a = (e, g) # ms" and nn: "\<not> a < nxt"
        by (cases "matches r t a") auto
      have f: "findall_from r t nxt (a # js) = (a, e, g) # findall_from r t (max e (Suc a)) js"
        using m nn by simp
      from Cons.IH [OF j(1,3) Cons.prems(3), of "max e (Suc a)"]
      consider "j < max e (Suc a)"
        | "\<exists>e' g'. (j, e', g') \<in> set (findall_from r t (max e (Suc a)) js)"
        | "\<exists>i e' g'. (i, e', g') \<in> set (findall_from r t (max e (Suc a)) js) \<and> i < j \<and> j < e'"
        by blast
      then show ?thesis
      proof cases
        case 1
        then have "j < e" using j(2) by auto
        then have "(a, e, g) \<in> set ((a, e, g) # findall_from r t (max e (Suc a)) js) \<and> a < j \<and> j < e"
          using j(2) by simp
        then show ?thesis unfolding f by blast
      next
        case 2
        then obtain e' g' where "(j, e', g') \<in> set ((a, e, g) # findall_from r t (max e (Suc a)) js)"
          by auto
        then show ?thesis unfolding f by blast
      next
        case 3
        then obtain i e' g' where
          "(i, e', g') \<in> set ((a, e, g) # findall_from r t (max e (Suc a)) js) \<and> i < j \<and> j < e'"
          by auto
        then show ?thesis unfolding f by blast
      qed
    qed
  qed
qed

lemma findall_none:
  "(\<And>j. j \<in> set js \<Longrightarrow> matches r t j = []) \<Longrightarrow> findall_from r t nxt js = []"
  by (induction js arbitrary: nxt) auto

lemma findall_skip:
  assumes "i \<le> nxt" "nxt \<le> b"
  shows "findall_from r t nxt [i..<b] = findall_from r t nxt [nxt..<b]"
  using assms
proof (induction "nxt - i" arbitrary: i)
  case 0
  then show ?case by simp
next
  case (Suc d)
  then have "i < nxt" "i < b" by simp_all
  then have "[i..<b] = i # [Suc i..<b]" by (simp add: upt_conv_Cons)
  then have "findall_from r t nxt [i..<b] = findall_from r t nxt [Suc i..<b]"
    using \<open>i < nxt\<close> by simp
  also have "\<dots> = findall_from r t nxt [nxt..<b]"
    using Suc by (intro Suc.hyps(1)) simp_all
  finally show ?case .
qed

subsection \<open>The pattern for years of experience\<close>

lemma not_decimal_chars:
  "\<not> is_decimal CHR ''+''" "\<not> is_decimal CHR ''y''" "\<not> is_decimal CHR ''e''"
  "\<not> is_decimal CHR ''a''" "\<not> is_decimal CHR ''r''" "\<not> is_decimal CHR ''s''"
  by (simp_all add: is_decimal_def code_point_def)

lemma space_not_decimal: "is_space c \<Longrightarrow> \<not> is_decimal c"
  by (auto simp: is_space_def is_decimal_def Let_def)

lemma run_bound: "run P t i \<le> length t - i"
  unfolding run_def by (metis length_drop length_takeWhile_le)

lemma run_nth: "x < run P t i \<Longrightarrow> P (t ! (i + x))"
proof -
  assume x: "x < run P t i"
  then have l: "x < length (takeWhile P (drop i t))" by (simp add: run_def)
  then have "takeWhile P (drop i t) ! x \<in> set (takeWhile P (drop i t))" by simp
  then have "P (takeWhile P (drop i t) ! x)" by (rule set_takeWhileD [THEN conjunct2])
  moreover have "takeWhile P (drop i t) ! x = drop i t ! x" using l by (rule takeWhile_nth)
  moreover have "i + x < length t" using x run_bound [of P t i] by simp
  ultimately show ?thesis by simp
qed

lemma run_eqI:
  assumes "k \<le> run P t i" "\<not> P (t ! (i + k))"
  shows "run P t i = k"
proof (rule ccontr)
  assume "run P t i \<noteq> k"
  with assms(1) have "k < run P t i" by simp
  then have "P (t ! (i + k))" by (rule run_nth)
  with assms(2) show False by simp
qed

lemma takeWhile_drop:
  "x \<le> length (takeWhile P xs) \<Longrightarrow> takeWhile P (drop x xs) = drop x (takeWhile P xs)"
proof (induction xs arbitrary: x)
  case Nil
  then show ?case by simp
next
  case (Cons a xs)
  then show ?case by (cases x) (auto split: if_splits)
qed

lemma run_shift: "x \<le> run P t i \<Longrightarrow> run P t (i + x) = run P t i - x"
proof -
  assume "x \<le> run P t i"
  then have "takeWhile P (drop x (drop i t)) = drop x (takeWhile P (drop i t))"
    unfolding run_def by (rule takeWhile_drop)
  then show ?thesis by (simp add: run_def add.commute)
qed

lemma year_len: "take 4 (drop a t) = ''year'' \<Longrightarrow> a + 4 \<le> length t"
proof -
  assume "take 4 (drop a t) = ''year''"
  then have "length (take 4 (drop a t)) = 4" by simp
  then show ?thesis by (simp add: min_def split: if_splits)
qed

lemma year_nth:
  assumes "take 4 (drop a t) = ''year''" "x < 4"
  shows "\<not> is_decimal (t ! (a + x))"
proof -
  have l: "a + 4 \<le> length t" using assms(1) by (rule year_len)
  have "take 4 (drop a t) ! x = t ! (a + x)" using assms(2) l by simp
  then have e: "t ! (a + x) = ''year'' ! x" using assms(1) by simp
  have nd: "\<forall>c\<in>set ''year''. \<not> is_decimal c" by (simp add: not_decimal_chars)
  have "''year'' ! x \<in> set ''year''" using assms(2) by (intro nth_mem) simp
  then have "\<not> is_decimal (''year'' ! x)" using nd by blast
  then show ?thesis unfolding e .
qed

lemma plus_run: "list_all (one_of ''+'') xs \<longleftrightarrow> xs = replicate (length xs) CHR ''+''"
  by (induction xs) (auto simp: one_of_def)

lemma year_phrase_run:
  "year_phrase t i k p w \<longleftrightarrow>
     1 \<le> k \<and> k \<le> run is_decimal t i \<and> p \<le> 1 \<and> p \<le> run (one_of ''+'') t (i + k) \<and>
     w \<le> run is_space t (i + k + p) \<and> take 4 (drop (i + k + p + w) t) = ''year''"
proof (cases "take 4 (drop (i + k + p + w) t) = ''year''")
  case False
  then show ?thesis by (simp add: year_phrase_def substr_def)
next
  case True
  then have l: "i + k + p + w + 4 \<le> length t" by (rule year_len)
  have a: "k \<le> run is_decimal t i \<longleftrightarrow> list_all is_decimal (substr t i (i + k))"
    using l by (auto simp: run_le substr_def)
  have lp: "length (substr t (i + k) (i + k + p)) = p" using l by (simp add: substr_def)
  have b: "p \<le> run (one_of ''+'') t (i + k) \<longleftrightarrow>
      substr t (i + k) (i + k + p) = replicate p CHR ''+''"
  proof -
    have "p \<le> run (one_of ''+'') t (i + k) \<longleftrightarrow> list_all (one_of ''+'') (substr t (i + k) (i + k + p))"
      using l by (auto simp: run_le substr_def)
    then show ?thesis using plus_run [of "substr t (i + k) (i + k + p)"] lp by simp
  qed
  have c: "w \<le> run is_space t (i + k + p) \<longleftrightarrow>
      list_all is_space (substr t (i + k + p) (i + k + p + w))"
    using l by (auto simp: run_le substr_def)
  show ?thesis
    unfolding year_phrase_def a b c using True by (auto simp: substr_def)
qed

lemma year_phrase_stop:
  assumes "year_phrase t i k p w"
  shows "\<not> is_decimal (t ! (i + k))"
proof -
  note r = assms [unfolded year_phrase_run]
  show ?thesis
  proof (cases "p = 0")
    case False
    then have "0 < run (one_of ''+'') t (i + k)" using r by simp
    then have "one_of ''+'' (t ! (i + k + 0))" by (rule run_nth)
    then show ?thesis by (simp add: one_of_def not_decimal_chars)
  next
    case p: True
    show ?thesis
    proof (cases "w = 0")
      case False
      then have "0 < run is_space t (i + k + p)" using r by simp
      then have "is_space (t ! (i + k + p + 0))" by (rule run_nth)
      then show ?thesis using p by (simp add: space_not_decimal)
    next
      case True
      have "\<not> is_decimal (t ! (i + k + p + w + 0))"
        using r by (intro year_nth) simp_all
      then show ?thesis using p True by simp
    qed
  qed
qed

lemma year_phrase_digits:
  assumes "year_phrase t i k p w"
  shows "k = run is_decimal t i"
  using assms year_phrase_stop [OF assms] run_eqI [of k is_decimal t i]
  by (simp add: year_phrase_run)

text \<open>A match of the pattern is an occurrence, and an occurrence is matched.\<close>

lemma years_match_phrase:
  assumes "(e, g) \<in> set (matches years_re t i)"
  shows "\<exists>k p w. year_phrase t i k p w \<and> g = Some (i, i + k) \<and> e \<le> i + k + p + w + 5"
  using assms unfolding years_match_iff year_phrase_run by fastforce

lemma phrase_years_match:
  assumes "year_phrase t i k p w"
  shows "(i + k + p + w + 4, Some (i, i + k)) \<in> set (matches years_re t i)"
  unfolding years_match_iff using assms [unfolded year_phrase_run]
  by (intro exI [of _ k] exI [of _ p] exI [of _ w] exI [of _ 0]) simp

text \<open>Inside a match, the characters after the group are not digits.\<close>

lemma years_match_tail:
  assumes "(e, g) \<in> set (matches years_re t i)" "g = Some (i, b)" "b \<le> j" "j < e"
  shows "\<not> is_decimal (t ! j)"
proof -
  from assms(1) obtain k p w s where m: "1 \<le> k" "k \<le> run is_decimal t i"
    "p \<le> 1" "p \<le> run (one_of ''+'') t (i + k)" "w \<le> run is_space t (i + k + p)"
    "take 4 (drop (i + k + p + w) t) = ''year''" "s \<le> 1"
    "s \<le> run (one_of ''s'') t (i + k + p + w + 4)" "e = i + k + p + w + 4 + s"
    "g = Some (i, i + k)"
    unfolding years_match_iff by blast
  have b: "b = i + k" using m(10) assms(2) by simp
  consider "j < i + k + p" | "i + k + p \<le> j" "j < i + k + p + w"
    | "i + k + p + w \<le> j" "j < i + k + p + w + 4" | "i + k + p + w + 4 \<le> j"
    by linarith
  then show ?thesis
  proof cases
    case 1
    then have "j - (i + k) < run (one_of ''+'') t (i + k)" using m(4) assms(3) b by simp
    then have "one_of ''+'' (t ! (i + k + (j - (i + k))))" by (rule run_nth)
    then show ?thesis using assms(3) b by (simp add: one_of_def not_decimal_chars)
  next
    case 2
    then have "j - (i + k + p) < run is_space t (i + k + p)" using m(5) by simp
    then have "is_space (t ! (i + k + p + (j - (i + k + p))))" by (rule run_nth)
    then show ?thesis using 2 by (simp add: space_not_decimal)
  next
    case 3
    then have "\<not> is_decimal (t ! (i + k + p + w + (j - (i + k + p + w))))"
      using m(6) by (intro year_nth) simp_all
    then show ?thesis using 3 by simp
  next
    case 4
    then have "j - (i + k + p + w + 4) < run (one_of ''s'') t (i + k + p + w + 4)"
      using m(8,9) assms(4) by simp
    then have "one_of ''s'' (t ! (i + k + p + w + 4 + (j - (i + k + p + w + 4))))" by (rule run_nth)
    then show ?thesis using 4 by (simp add: one_of_def not_decimal_chars)
  qed
qed

lemma phrase_len:
  assumes "year_phrase t i k p w"
  shows "i + k + p + w + 4 \<le> length t"
proof -
  from assms have "take 4 (drop (i + k + p + w) t) = ''year''"
    by (simp add: year_phrase_run)
  then show ?thesis by (rule year_len)
qed

lemma phrases_iff: "(i, k, p, w) \<in> set (phrases t) \<longleftrightarrow> year_phrase t i k p w"
proof
  assume "(i, k, p, w) \<in> set (phrases t)"
  then show "year_phrase t i k p w"
    unfolding phrases_def by (simp del: upt_Suc)
next
  assume y: "year_phrase t i k p w"
  then have r: "1 \<le> k" "p \<le> 1" by (simp_all add: year_phrase_run)
  have l: "i + k + p + w + 4 \<le> length t" using y by (rule phrase_len)
  have "i \<in> set [0..<length t]" "k \<in> set [1..<Suc (length t)]" "p \<in> set [0..<2]"
    "w \<in> set [0..<Suc (length t)]"
    using l r by auto
  then show "(i, k, p, w) \<in> set (phrases t)"
    unfolding phrases_def using y by (simp del: upt_Suc)
qed

lemma phrase_values_iff:
  "u \<in> set (phrase_values t) \<longleftrightarrow>
     (\<exists>i k p w. year_phrase t i k p w \<and> u = digits_value (substr t i (i + k)))"
proof
  assume "u \<in> set (phrase_values t)"
  then obtain x where x: "x \<in> set (phrases t)"
    and u: "u = (\<lambda>(i, k, p, w). digits_value (substr t i (i + k))) x"
    unfolding phrase_values_def by auto
  obtain i k p w where "x = (i, k, p, w)" by (cases x)
  with x u show "\<exists>i k p w. year_phrase t i k p w \<and> u = digits_value (substr t i (i + k))"
    using phrases_iff by auto
next
  assume "\<exists>i k p w. year_phrase t i k p w \<and> u = digits_value (substr t i (i + k))"
  then obtain i k p w where y: "year_phrase t i k p w"
    and u: "u = digits_value (substr t i (i + k))" by blast
  from y have "(i, k, p, w) \<in> set (phrases t)" by (simp add: phrases_iff)
  then have "(\<lambda>(i, k, p, w). digits_value (substr t i (i + k))) (i, k, p, w) \<in> set (phrase_values t)"
    unfolding phrase_values_def set_map by (rule imageI)
  then show "u \<in> set (phrase_values t)" by (simp add: u)
qed

lemma long_count_iff:
  "long_count t \<longleftrightarrow> (\<exists>i k p w. year_phrase t i k p w \<and> int_max_str_digits < k)"
proof
  assume "long_count t"
  then obtain x where x: "x \<in> set (phrases t)"
    and u: "(\<lambda>(i, k, p, w). int_max_str_digits < k) x"
    unfolding long_count_def list_ex_iff by blast
  obtain i k p w where "x = (i, k, p, w)" by (cases x)
  with x u show "\<exists>i k p w. year_phrase t i k p w \<and> int_max_str_digits < k"
    using phrases_iff by auto
next
  assume "\<exists>i k p w. year_phrase t i k p w \<and> int_max_str_digits < k"
  then obtain i k p w where "year_phrase t i k p w" "int_max_str_digits < k" by blast
  then have "(i, k, p, w) \<in> set (phrases t) \<and> (\<lambda>(i, k, p, w). int_max_str_digits < k) (i, k, p, w)"
    by (simp add: phrases_iff)
  then show "long_count t" unfolding long_count_def list_ex_iff by blast
qed


lemma phrase_substr_len:
  assumes "year_phrase t i k p w"
  shows "length (substr t i (i + k)) = k"
  using phrase_len [OF assms] by (simp add: substr_def)

lemma foldl_digits:
  assumes f: "\<And>a c. f a c = 10 * a + d c"
  shows "foldl f a ys = a * 10 ^ length ys + foldl f (0::int) ys"
proof (induction ys arbitrary: a)
  case Nil
  then show ?case by simp
next
  case (Cons y ys)
  have 1: "foldl f (f a y) ys = f a y * 10 ^ length ys + foldl f 0 ys" by (rule Cons.IH)
  have 2: "foldl f (f 0 y) ys = f 0 y * 10 ^ length ys + foldl f 0 ys" by (rule Cons.IH)
  have "f a y = 10 * a + f 0 y" by (simp add: f)
  then have "f a y * 10 ^ length ys = a * 10 ^ length (y # ys) + f 0 y * 10 ^ length ys"
    by (simp add: algebra_simps)
  then show ?case using 1 2 by simp
qed

lemma digits_value_append:
  "digits_value (xs @ ys) = digits_value xs * 10 ^ length ys + digits_value ys"
  unfolding digits_value_def foldl_append by (rule foldl_digits) simp

lemma digit_val_nonneg: "is_decimal c \<Longrightarrow> 0 \<le> digit_val c"
  by (simp add: is_decimal_def digit_val_def Let_def)

lemma digits_value_nonneg: "list_all is_decimal xs \<Longrightarrow> 0 \<le> digits_value xs"
proof (induction xs rule: rev_induct)
  case Nil
  then show ?case by (simp add: digits_value_def)
next
  case (snoc x xs)
  then have "0 \<le> digits_value xs" "0 \<le> digit_val x"
    by (simp_all add: digit_val_nonneg)
  moreover have "digits_value (xs @ [x]) = digits_value xs * 10 + digit_val x"
    by (simp add: digits_value_def)
  ultimately show ?case by simp
qed

lemma digits_value_drop:
  assumes "list_all is_decimal xs"
  shows "digits_value (drop n xs) \<le> digits_value xs"
proof -
  have "list_all is_decimal (take n xs)" using assms by (auto simp: list_all_iff dest: in_set_takeD)
  then have "0 \<le> digits_value (take n xs)" by (rule digits_value_nonneg)
  then have "0 \<le> digits_value (take n xs) * 10 ^ length (drop n xs)" by simp
  moreover have "digits_value xs =
      digits_value (take n xs) * 10 ^ length (drop n xs) + digits_value (drop n xs)"
    using digits_value_append [of "take n xs" "drop n xs"] by simp
  ultimately show ?thesis by simp
qed

lemma max_of_eq_Max: "xs \<noteq> [] \<Longrightarrow> max_of xs = Max (set xs)"
  by (induction xs rule: max_of.induct) simp_all


lemma Max_cofinal:
  assumes "finite T" "S \<subseteq> T" "S \<noteq> {}" "\<And>u. u \<in> T \<Longrightarrow> \<exists>v\<in>S. u \<le> v"
  shows "Max S = Max (T :: int set)"
proof (rule antisym)
  have fs: "finite S" using assms(1,2) by (rule rev_finite_subset)
  show "Max S \<le> Max T" by (rule Max_mono [OF assms(2,3,1)])
  have tn: "T \<noteq> {}" using assms(2,3) by auto
  have "Max T \<in> T" using assms(1) tn by (rule Max_in)
  then obtain v where "v \<in> S" "Max T \<le> v" using assms(4) by blast
  moreover have "v \<le> Max S" using fs \<open>v \<in> S\<close> by (rule Max_ge)
  ultimately show "Max T \<le> Max S" by simp
qed

text \<open>What the scan for the pattern finds, against the occurrences of the phrase.\<close>

lemma found_is_phrase:
  assumes "m \<in> set (findall_from years_re t nxt js)"
  shows "\<exists>i k p w. year_phrase t i k p w \<and> group_text t m = substr t i (i + k)"
proof -
  obtain i e g where m: "m = (i, e, g)" by (cases m)
  have "(e, g) \<in> set (matches years_re t i)"
    using assms findall_sound unfolding m by blast
  then obtain k p w where "year_phrase t i k p w" "g = Some (i, i + k)"
    using years_match_phrase by blast
  then show ?thesis unfolding m by (auto simp: group_text_def)
qed

lemma phrase_is_found:
  assumes y: "year_phrase t j k p w"
  shows "\<exists>m\<in>set (findall_from years_re t 0 [0..<Suc (length t)]).
          digits_value (substr t j (j + k)) \<le> digits_value (group_text t m) \<and>
          k \<le> length (group_text t m)"
proof -
  let ?R = "findall_from years_re t 0 [0..<Suc (length t)]"
  note r = y [unfolded year_phrase_run]
  have l: "j + k + p + w + 4 \<le> length t" using r by (intro year_len) simp
  have k: "k = run is_decimal t j" using y by (rule year_phrase_digits)
  have dj: "is_decimal (t ! j)"
  proof -
    have "0 < run is_decimal t j" using r by simp
    then have "is_decimal (t ! (j + 0))" by (rule run_nth)
    then show ?thesis by simp
  qed
  have ne: "matches years_re t j \<noteq> []" using phrase_years_match [OF y] by auto
  have mem: "j \<in> set [0..<Suc (length t)]" using l by simp
  have srt: "sorted_wrt (<) [0..<Suc (length t)]" by (rule sorted_wrt_upt)
  have "\<not> j < 0" by simp
  with findall_cover [OF mem srt ne, of 0]
  consider e g where "(j, e, g) \<in> set ?R"
    | i e g where "(i, e, g) \<in> set ?R" "i < j" "j < e"
    by blast
  then show ?thesis
  proof cases
    case 1
    then have "(e, g) \<in> set (matches years_re t j)" using findall_sound by blast
    then obtain k' p' w' where y': "year_phrase t j k' p' w'" and g: "g = Some (j, j + k')"
      using years_match_phrase by blast
    have "k' = k" using year_phrase_digits [OF y'] k by simp
    then have "group_text t (j, e, g) = substr t j (j + k)" by (simp add: group_text_def g)
    moreover have "length (substr t j (j + k)) = k" using y by (rule phrase_substr_len)
    ultimately show ?thesis using 1(1) by force
  next
    case 2
    have mt: "(e, g) \<in> set (matches years_re t i)" using 2(1) findall_sound by blast
    then obtain k' p' w' where y': "year_phrase t i k' p' w'" and g: "g = Some (i, i + k')"
      using years_match_phrase by blast
    have k': "k' = run is_decimal t i" using y' by (rule year_phrase_digits)
    have inside: "j < i + k'"
    proof (rule ccontr)
      assume "\<not> j < i + k'"
      then have "i + k' \<le> j" by simp
      then have "\<not> is_decimal (t ! j)" using mt g 2(3) by (intro years_match_tail) auto
      with dj show False by simp
    qed
    have sh: "run is_decimal t (i + (j - i)) = run is_decimal t i - (j - i)"
      using inside k' 2(2) by (intro run_shift) simp
    have kk: "k = k' - (j - i)" using sh k k' 2(2) by simp
    have "substr t j (j + k) = drop (j - i) (substr t i (i + k'))"
      using 2(2) inside kk by (simp add: substr_def drop_take)
    moreover have "list_all is_decimal (substr t i (i + k'))"
      using y' by (simp add: year_phrase_def)
    ultimately have "digits_value (substr t j (j + k)) \<le> digits_value (substr t i (i + k'))"
      by (simp add: digits_value_drop)
    moreover have "group_text t (i, e, g) = substr t i (i + k')" by (simp add: group_text_def g)
    moreover have "length (substr t i (i + k')) = k'" using y' by (rule phrase_substr_len)
    moreover have "k \<le> k'" using kk by simp
    ultimately show ?thesis using 2(1) by force
  qed
qed

lemma years_found_vs_phrases:
  "(map digits_value (re_findall years_re t) = [] \<longleftrightarrow> phrase_values t = []) \<and>
   (re_findall years_re t \<noteq> [] \<longrightarrow>
      max_of (map digits_value (re_findall years_re t)) = Max (set (phrase_values t)))"
proof -
  let ?R = "findall_from years_re t 0 [0..<Suc (length t)]"
  let ?V = "map digits_value (re_findall years_re t)"
  have V: "set ?V = (\<lambda>m. digits_value (group_text t m)) ` set ?R"
    by (auto simp: re_findall_def)
  have sub: "set ?V \<subseteq> set (phrase_values t)"
  proof
    fix v assume "v \<in> set ?V"
    then obtain m where "m \<in> set ?R" "v = digits_value (group_text t m)" unfolding V by blast
    moreover from this obtain i k p w where "year_phrase t i k p w"
      "group_text t m = substr t i (i + k)"
      using found_is_phrase by blast
    ultimately show "v \<in> set (phrase_values t)"
      unfolding phrase_values_iff by auto
  qed
  have cof: "\<And>u. u \<in> set (phrase_values t) \<Longrightarrow> \<exists>v\<in>set ?V. u \<le> v"
  proof -
    fix u assume "u \<in> set (phrase_values t)"
    then obtain i k p w where "year_phrase t i k p w" "u = digits_value (substr t i (i + k))"
      unfolding phrase_values_iff by blast
    then obtain m where "m \<in> set ?R" "u \<le> digits_value (group_text t m)"
      using phrase_is_found by blast
    then show "\<exists>v\<in>set ?V. u \<le> v" unfolding V by blast
  qed
  have e: "?V = [] \<longleftrightarrow> phrase_values t = []"
  proof
    assume "?V = []"
    then have em: "set ?V = {}" by simp
    have "u \<notin> set (phrase_values t)" for u
    proof
      assume "u \<in> set (phrase_values t)"
      then obtain v where "v \<in> set ?V" using cof by blast
      with em show False by simp
    qed
    then show "phrase_values t = []" by (cases "phrase_values t") auto
  next
    assume "phrase_values t = []"
    then have "set ?V = {}" using sub by auto
    then show "?V = []" by simp
  qed
  have "re_findall years_re t \<noteq> [] \<longrightarrow> max_of ?V = Max (set (phrase_values t))"
  proof
    assume "re_findall years_re t \<noteq> []"
    then have ne: "?V \<noteq> []" by simp
    then have "set ?V \<noteq> {}" by simp
    then have "Max (set ?V) = Max (set (phrase_values t))"
      using sub cof by (intro Max_cofinal) simp_all
    then show "max_of ?V = Max (set (phrase_values t))" using ne by (simp add: max_of_eq_Max)
  qed
  with e show ?thesis by blast
qed

text \<open>When the conversion of the counts raises.\<close>

lemma map_int_Inr:
  "(\<forall>m\<in>set ms. length m \<le> int_max_str_digits) \<Longrightarrow> map_int ms = Inr (map digits_value ms)"
  by (induction ms) (simp_all add: int_of_digits_def)

lemma map_int_Inl:
  "(\<exists>m\<in>set ms. int_max_str_digits < length m) \<Longrightarrow> isl (map_int ms)"
proof (induction ms)
  case Nil
  then show ?case by simp
next
  case (Cons a ms)
  show ?case
  proof (cases "int_max_str_digits < length a")
    case True
    then show ?thesis by (simp add: int_of_digits_def)
  next
    case False
    with Cons.prems have "\<exists>m\<in>set ms. int_max_str_digits < length m" by auto
    then have "isl (map_int ms)" by (rule Cons.IH)
    then obtain e where "map_int ms = Inl e" by (cases "map_int ms") simp_all
    then show ?thesis using False by (simp add: int_of_digits_def)
  qed
qed


lemma found_long_iff:
  "(\<exists>m\<in>set (re_findall years_re t). int_max_str_digits < length m) \<longleftrightarrow> long_count t"
proof
  assume "\<exists>m\<in>set (re_findall years_re t). int_max_str_digits < length m"
  then obtain m where m: "m \<in> set (findall_from years_re t 0 [0..<Suc (length t)])"
    and l: "int_max_str_digits < length (group_text t m)"
    unfolding re_findall_def by auto
  from m obtain i k p w where y: "year_phrase t i k p w"
    and g: "group_text t m = substr t i (i + k)"
    using found_is_phrase by blast
  have "length (substr t i (i + k)) = k" using y by (rule phrase_substr_len)
  with l g have "int_max_str_digits < k" by simp
  with y show "long_count t" unfolding long_count_iff by blast
next
  assume "long_count t"
  then obtain i k p w where y: "year_phrase t i k p w" and l: "int_max_str_digits < k"
    unfolding long_count_iff by blast
  from phrase_is_found [OF y] obtain m
    where "m \<in> set (findall_from years_re t 0 [0..<Suc (length t)])"
      "k \<le> length (group_text t m)" by blast
  then have "group_text t m \<in> set (re_findall years_re t)"
    "int_max_str_digits < length (group_text t m)"
    using l by (simp_all add: re_findall_def)
  then show "\<exists>m\<in>set (re_findall years_re t). int_max_str_digits < length m" by blast
qed






subsection \<open>The pattern for calendar years\<close>

lemma matches_range_run:
  "matches range_re t i =
     (if take 2 (drop i t) = ''20'' \<and> 2 \<le> run is_decimal t (i + 2)
      then [(i + 4, Some (i, i + 4))] else [])"
proof -
  have l: "length ''20'' = 2" by simp
  have c: "matches (Cls is_decimal 2 (Some 2)) t e =
      (if 2 \<le> run is_decimal t e then [(e + 2, None)] else [])" for e
  proof (cases "2 \<le> run is_decimal t e")
    case True
    then have "min (run is_decimal t e) 2 = 2" by simp
    moreover have "[2..<Suc 2] = [2]" by (simp add: upt_rec)
    ultimately show ?thesis using True by (simp add: run_def [symmetric] Let_def)
  next
    case False
    then have "min (run is_decimal t e) 2 = run is_decimal t e" "Suc (run is_decimal t e) \<le> 2"
      by simp_all
    then show ?thesis using False by (simp add: run_def [symmetric] Let_def)
  qed
  have s: "matches (Seq (Lit ''20'') (Cls is_decimal 2 (Some 2))) t i =
      (if take 2 (drop i t) = ''20'' \<and> 2 \<le> run is_decimal t (i + 2)
       then [(i + 4, None)] else [])"
    unfolding matches.simps(4) matches.simps(2) l c by simp
  show ?thesis unfolding range_re_def matches.simps(6) s by simp
qed

lemma matches_range:
  "matches range_re t i =
     (if is_20xx (substr t i (i + 4)) then [(i + 4, Some (i, i + 4))] else [])"
proof -
  have "take 2 (drop i t) = ''20'' \<and> 2 \<le> run is_decimal t (i + 2) \<longleftrightarrow>
      is_20xx (substr t i (i + 4))"
  proof (cases "i + 4 \<le> length t")
    case True
    have "2 \<le> run is_decimal t (i + 2) \<longleftrightarrow> list_all is_decimal (substr t (i + 2) (i + 2 + 2))"
      using True by (simp add: run_le)
    moreover have "substr t (i + 2) (i + 2 + 2) = drop 2 (substr t i (i + 4))"
      by (simp add: substr_def drop_take add.commute)
    moreover have "take 2 (substr t i (i + 4)) = take 2 (drop i t)"
      by (simp add: substr_def)
    moreover have "length (substr t i (i + 4)) = 4" using True by (simp add: substr_def)
    ultimately show ?thesis by (simp add: is_20xx_def)
  next
    case False
    then have "length (substr t i (i + 4)) \<noteq> 4" by (simp add: substr_def)
    moreover have "\<not> 2 \<le> run is_decimal t (i + 2)"
      using False run_bound [of is_decimal t "i + 2"] by simp
    ultimately show ?thesis by (simp add: is_20xx_def)
  qed
  then show ?thesis by (simp add: matches_range_run)
qed

lemma is_20xx_four:
  "is_20xx [a, b, c, d] \<longleftrightarrow> a = CHR ''2'' \<and> b = CHR ''0'' \<and> is_decimal c \<and> is_decimal d"
  by (simp add: is_20xx_def)

lemma scan_years_short: "length u < 4 \<Longrightarrow> scan_years u = []"
  by (cases u rule: scan_years.cases) simp_all

lemma matches_range_short: "length t - i < 4 \<Longrightarrow> matches range_re t i = []"
proof -
  assume "length t - i < 4"
  then have "length (substr t i (i + 4)) \<noteq> 4" by (simp add: substr_def)
  then show ?thesis unfolding matches_range by (simp add: is_20xx_def)
qed

lemma findall_range:
  assumes "nxt \<le> i" "i \<le> length t"
  shows "map (group_text t) (findall_from range_re t nxt [i..<Suc (length t)]) =
         scan_years (drop i t)"
  using assms
proof (induction "length t - i" arbitrary: i nxt rule: less_induct)
  case less
  have up: "[i..<Suc (length t)] = i # [Suc i..<Suc (length t)]"
    using less.prems(2) by (simp add: upt_conv_Cons)
  show ?case
  proof (cases "length t - i < 4")
    case True
    have "findall_from range_re t nxt [i..<Suc (length t)] = []"
    proof (rule findall_none)
      fix j assume "j \<in> set [i..<Suc (length t)]"
      then have "length t - j < 4" using True by auto
      then show "matches range_re t j = []" by (rule matches_range_short)
    qed
    moreover have "scan_years (drop i t) = []" using True by (intro scan_years_short) simp
    ultimately show ?thesis by simp
  next
    case False
    then have l: "i + 4 \<le> length t" by simp
    then obtain a b c d rest where dr: "drop i t = a # b # c # d # rest"
    proof -
      have "4 \<le> length (drop i t)" using l by simp
      then obtain a u1 where 1: "drop i t = a # u1" "3 \<le> length u1" by (cases "drop i t") auto
      then obtain b u2 where 2: "u1 = b # u2" "2 \<le> length u2" by (cases u1) auto
      then obtain c u3 where 3: "u2 = c # u3" "1 \<le> length u3" by (cases u2) auto
      then obtain d u4 where 4: "u3 = d # u4" by (cases u3) auto
      show ?thesis using that 1 2 3 4 by simp
    qed
    have ni: "\<not> i < nxt" using less.prems(1) by simp
    have sb: "substr t i (i + 4) = [a, b, c, d]" by (simp add: substr_def dr)
    show ?thesis
    proof (cases "a = CHR ''2'' \<and> b = CHR ''0'' \<and> is_decimal c \<and> is_decimal d")
      case True
      have m: "matches range_re t i = [(i + 4, Some (i, i + 4))]"
        unfolding matches_range sb is_20xx_four using True by simp
      have "findall_from range_re t nxt [i..<Suc (length t)] =
          (i, i + 4, Some (i, i + 4)) # findall_from range_re t (i + 4) [Suc i..<Suc (length t)]"
        unfolding up using ni m by (simp add: max_def)
      also have "findall_from range_re t (i + 4) [Suc i..<Suc (length t)] =
          findall_from range_re t (i + 4) [i + 4..<Suc (length t)]"
        using l by (intro findall_skip) simp_all
      finally have f: "findall_from range_re t nxt [i..<Suc (length t)] =
          (i, i + 4, Some (i, i + 4)) # findall_from range_re t (i + 4) [i + 4..<Suc (length t)]" .
      have ih: "map (group_text t) (findall_from range_re t (i + 4) [i + 4..<Suc (length t)]) =
          scan_years (drop (i + 4) t)"
        using l by (intro less.hyps) simp_all
      have g: "group_text t (i, i + 4, Some (i, i + 4)) = [a, b, c, d]"
        by (simp add: group_text_def substr_def dr)
      have r: "drop (i + 4) t = rest"
      proof -
        have "drop (i + 4) t = drop 4 (drop i t)" by (simp add: add.commute)
        then show ?thesis by (simp add: dr)
      qed
      have A: "map (group_text t) (findall_from range_re t nxt [i..<Suc (length t)]) =
          [a, b, c, d] # scan_years rest"
        unfolding f by (simp only: list.map g ih r)
      have ct: "(a = CHR ''2'' \<and> b = CHR ''0'' \<and> is_decimal c \<and> is_decimal d) = True"
        using True by simp
      have B: "scan_years (drop i t) = [a, b, c, d] # scan_years rest"
        unfolding dr scan_years.simps(1) ct if_True ..
      show ?thesis unfolding A B ..
    next
      case False
      have m: "matches range_re t i = []"
        unfolding matches_range sb is_20xx_four using False by simp
      have f: "findall_from range_re t nxt [i..<Suc (length t)] =
          findall_from range_re t nxt [Suc i..<Suc (length t)]"
        unfolding up using ni m by simp
      have ih: "map (group_text t) (findall_from range_re t nxt [Suc i..<Suc (length t)]) =
          scan_years (drop (Suc i) t)"
        using l less.prems(1) by (intro less.hyps) simp_all
      have r: "drop (Suc i) t = b # c # d # rest"
      proof -
        have "drop (Suc i) t = drop 1 (drop i t)" by simp
        then show ?thesis by (simp add: dr)
      qed
      have cf: "(a = CHR ''2'' \<and> b = CHR ''0'' \<and> is_decimal c \<and> is_decimal d) = False"
        using False by simp
      have B: "scan_years (drop i t) = scan_years (b # c # d # rest)"
        unfolding dr scan_years.simps(1) cf if_False ..
      show ?thesis unfolding f ih r B ..
    qed
  qed
qed

lemma re_findall_range: "re_findall range_re t = scan_years t"
  using findall_range [of 0 0 t] by (simp add: re_findall_def)

subsection \<open>The experience extracted\<close>




lemma scan_years_len: "m \<in> set (scan_years t) \<Longrightarrow> length m = 4"
  by (induction t rule: scan_years.induct) (auto split: if_splits)

lemma no_phrase_not_long: "phrase_values t = [] \<Longrightarrow> \<not> long_count t"
proof
  assume e: "phrase_values t = []" and "long_count t"
  then obtain i k p w where "year_phrase t i k p w" unfolding long_count_iff by blast
  then have "digits_value (substr t i (i + k)) \<in> set (phrase_values t)"
    unfolding phrase_values_iff by blast
  with e show False by simp
qed

text \<open>
  \<open>extract_experience\<close> raises exactly on the texts with a long count, and otherwise
  follows the rule with all occurrences of the phrase and the years of the scan.
\<close>

lemma raises_iff_long_count:
  "isl (extract_experience text) \<longleftrightarrow> long_count (normalize_text text)"
proof -
  let ?t = "normalize_text text"
  note y = years_found_vs_phrases [of ?t]
  show ?thesis
  proof (cases "re_findall years_re ?t = []")
    case True
    then have "phrase_values ?t = []" using y by simp
    then have n: "\<not> long_count ?t" by (rule no_phrase_not_long)
    have "\<forall>m\<in>set (scan_years ?t). length m \<le> int_max_str_digits"
      by (simp add: scan_years_len int_max_str_digits_def)
    then have "map_int (scan_years ?t) = Inr (map digits_value (scan_years ?t))"
      by (rule map_int_Inr)
    then have "\<not> isl (extract_experience text)"
      unfolding extract_experience_def Let_def re_findall_range using True by simp
    with n show ?thesis by simp
  next
    case False
    show ?thesis
    proof (cases "long_count ?t")
      case True
      then have "isl (map_int (re_findall years_re ?t))"
        unfolding found_long_iff [symmetric] by (rule map_int_Inl)
      then obtain e where "map_int (re_findall years_re ?t) = Inl e"
        by (cases "map_int (re_findall years_re ?t)") simp_all
      then have "isl (extract_experience text)"
        unfolding extract_experience_def Let_def using False by simp
      with True show ?thesis by simp
    next
      case nl: False
      then have "\<forall>m\<in>set (re_findall years_re ?t). length m \<le> int_max_str_digits"
        unfolding found_long_iff [symmetric] by auto
      then have "map_int (re_findall years_re ?t) = Inr (map digits_value (re_findall years_re ?t))"
        by (rule map_int_Inr)
      then have "\<not> isl (extract_experience text)"
        unfolding extract_experience_def Let_def using False by simp
      with nl show ?thesis by simp
    qed
  qed
qed



text \<open>A count of \<open>n\<close> nines.\<close>

lemma nine_facts:
  "is_decimal CHR ''9''" "\<not> is_space CHR ''9''" "lower_chr CHR ''9'' = CHR ''9''"
  "is_space CHR '' ''" "\<not> is_space CHR ''s''"
  by code_simp+

lemma sub_ws_nines: "sub_ws (replicate n CHR ''9'' @ u) = replicate n CHR ''9'' @ sub_ws u"
  by (induction n) (simp_all add: sub_ws_nonspace nine_facts)

lemma strip_nines:
  "strip (replicate (Suc n) CHR ''9'' @ '' years'') = replicate (Suc n) CHR ''9'' @ '' years''"
  "strip (replicate (Suc n) CHR ''9'' @ '' years '') = replicate (Suc n) CHR ''9'' @ '' years''"
  by (simp_all add: strip_def nine_facts)

lemma normalize_nines:
  "normalize_text (replicate (Suc n) CHR ''9'' @ '' years'') =
     replicate (Suc n) CHR ''9'' @ '' years''"
proof -
  have l: "lower '' years'' = '' years''" by code_simp
  have s: "sub_ws '' years'' = '' years''" by code_simp
  show ?thesis
    unfolding normalize_text_def lower_def map_append map_replicate nine_facts
      l [unfolded lower_def] sub_ws_nines s
    by (rule strip_nines)
qed


lemma long_count_nines:
  assumes "int_max_str_digits < Suc n"
  shows "long_count (replicate (Suc n) CHR ''9'' @ '' years'')"
proof -
  have "year_phrase (replicate (Suc n) CHR ''9'' @ '' years'') 0 (Suc n) 0 1"
    by (simp add: year_phrase_def substr_def nine_facts list_all_iff)
  with assms show ?thesis unfolding long_count_iff by blast
qed

lemma long_count_text_nines: "long_count_text = replicate (Suc 4300) CHR ''9'' @ '' years''"
proof -
  have "(4301::nat) = Suc 4300" by simp
  then show ?thesis unfolding long_count_text_def by (rule arg_cong)
qed






subsection \<open>A failure while reading a document\<close>




subsection \<open>Two runs on the same input\<close>

text \<open>
  C4, as stated, fails: two processes may iterate over the same set in different
  orders, and then the lists of skills differ.
\<close>

theorem order_counterexample:
  "valid_order sorted_list_of_set \<and> valid_order rev_sorted \<and>
   parse_then_score sorted_list_of_set sorted_list_of_set ''Python and SQL'' [''docker'', ''aws''] 0 \<noteq>
   parse_then_score rev_sorted rev_sorted ''Python and SQL'' [''docker'', ''aws''] 0"
proof -
  have n: "normalize_text ''Python and SQL'' = ''python and sql''" by code_simp
  have f: "found_skills ''Python and SQL'' = [''python'', ''sql'']"
    unfolding found_skills_scan n by code_simp
  have a: "extract_skills sorted_list_of_set ''Python and SQL'' = [''python'', ''sql'']"
    unfolding extract_skills_def f by code_simp
  have b: "extract_skills rev_sorted ''Python and SQL'' = [''sql'', ''python'']"
    unfolding extract_skills_def f rev_sorted_def by code_simp
  have y: "extract_experience ''Python and SQL'' = Inr 0"
    unfolding extract_experience_def n by code_simp
  have "parse_then_score sorted_list_of_set sorted_list_of_set ''Python and SQL'' [''docker'', ''aws''] 0
      \<noteq> parse_then_score rev_sorted rev_sorted ''Python and SQL'' [''docker'', ''aws''] 0"
    by (simp add: parse_then_score_def parse_def y a b)
  then show ?thesis using valid_sorted valid_rev_sorted by blast
qed

text \<open>
  C4, amended. Take two runs on the same text and requirements, each with its own
  iteration orders. When one raises, the other raises the same exception. When one
  returns, the other returns the same candidate but for the order of the skills, the
  same score, the same skill percentage and the missing skills in some order: the two
  lists of skills have the same elements, each once, and so have the two lists of
  missing skills. Nothing in the result but the order of these two lists depends on
  the iteration order.
\<close>

theorem results_equal_up_to_order:
  assumes "valid_order ord1" "valid_order ord2" "valid_order ord1'" "valid_order ord2'"
  shows "(\<forall>x. parse_then_score ord1 ord2 text rs me = Inl x \<longrightarrow>
            parse_then_score ord1' ord2' text rs me = Inl x) \<and>
         (\<forall>c score missing skill_percent.
            parse_then_score ord1 ord2 text rs me = Inr (c, score, missing, skill_percent) \<longrightarrow>
            (\<exists>skills' missing'.
               parse_then_score ord1' ord2' text rs me =
                 Inr (c\<lparr>skills := skills'\<rparr>, score, missing', skill_percent) \<and>
               set skills' = set (skills c) \<and> distinct skills' \<and> distinct (skills c) \<and>
               length skills' = length (skills c) \<and>
               set missing' = set missing \<and> distinct missing' \<and> distinct missing \<and>
               length missing' = length missing))"
proof -
  let ?m = "JobMatcher rs me"
  have 1: "parse_then_score ord1' ord2' text rs me = Inl x"
    if "parse_then_score ord1 ord2 text rs me = Inl x" for x
    using that by (auto simp: parse_then_score_def parse_def split: sum.splits)
  have 2: "\<exists>skills' missing'.
      parse_then_score ord1' ord2' text rs me =
        Inr (c\<lparr>skills := skills'\<rparr>, score, missing', skill_percent) \<and>
      set skills' = set (skills c) \<and> distinct skills' \<and> distinct (skills c) \<and>
      length skills' = length (skills c) \<and>
      set missing' = set missing \<and> distinct missing' \<and> distinct missing \<and>
      length missing' = length missing"
    if r: "parse_then_score ord1 ord2 text rs me = Inr (c, score, missing, skill_percent)"
    for c score missing skill_percent
  proof -
    from r obtain y where y: "extract_experience text = Inr y"
      by (auto simp: parse_then_score_def parse_def split: sum.splits)
    have pc: "parse ord1 text = Inr c"
      and cs: "calculate_score ord2 ?m c = (score, missing, skill_percent)"
      using r by (auto simp: parse_then_score_def split: sum.splits)
    define c' where "c' = c\<lparr>skills := extract_skills ord1' text\<rparr>"
    have pc': "parse ord1' text = Inr c'"
      using pc by (auto simp: parse_def y c'_def)
    have sc: "skills c = extract_skills ord1 text"
      using pc by (auto simp: parse_def y)
    have sk: "set (skills c) = set (skills c')"
      using assms(1,3) by (simp add: sc c'_def extract_skills_set)
    have d: "distinct (skills c)" "distinct (skills c')"
      using assms(1,3) by (simp_all add: sc c'_def extract_skills_def valid_order_distinct)
    have e: "exp_part ?m c = exp_part ?m c'"
      by (simp add: exp_part_def c'_def)
    obtain s1 m1 where p1: "skill_part ord2 ?m c = (s1, m1)" by (cases "skill_part ord2 ?m c")
    obtain s2 m2 where p2: "skill_part ord2' ?m c' = (s2, m2)" by (cases "skill_part ord2' ?m c'")
    have "s1 = s2" using skill_part_set(1) [OF sk, of ord2 ?m ord2'] by (simp add: p1 p2)
    moreover have sm: "set m1 = set m2"
      using skill_part_set(2) [OF sk assms(2,4) finite_req, of rs me] by (simp add: p1 p2)
    moreover have dm: "distinct m1" "distinct m2"
      using skill_part_distinct [OF assms(2) finite_req, of rs me c]
        skill_part_distinct [OF assms(4) finite_req, of rs me c'] by (simp_all add: p1 p2)
    ultimately have cs': "calculate_score ord2' ?m c' = (score, m2, skill_percent)"
      and mm: "missing = m1"
      using cs unfolding calculate_score_parts p1 p2 e by simp_all
    have q: "parse_then_score ord1' ord2' text rs me = Inr (c', score, m2, skill_percent)"
      by (simp add: parse_then_score_def pc' cs')
    have cc: "c\<lparr>skills := skills c'\<rparr> = c'" by (simp add: c'_def)
    have "parse_then_score ord1' ord2' text rs me =
        Inr (c\<lparr>skills := skills c'\<rparr>, score, m2, skill_percent)"
      unfolding cc by (rule q)
    moreover have "length (skills c') = length (skills c)"
      using d sk by (intro distinct_same_set_length) simp_all
    moreover have "length m2 = length missing"
      using dm sm mm by (intro distinct_same_set_length) simp_all
    ultimately show ?thesis using sk d sm dm mm by auto
  qed
  show ?thesis using 1 2 by blast
qed

theorem results_equal_up_to_order_witness:
  "(\<exists>c score missing skill_percent skills' missing'.
     parse_then_score sorted_list_of_set sorted_list_of_set ''Python and SQL'' [''docker'', ''aws''] 0 =
       Inr (c, score, missing, skill_percent) \<and>
     parse_then_score rev_sorted rev_sorted ''Python and SQL'' [''docker'', ''aws''] 0 =
       Inr (c\<lparr>skills := skills'\<rparr>, score, missing', skill_percent) \<and>
     set skills' = set (skills c) \<and> set missing' = set missing \<and>
     distinct missing' \<and> distinct missing) \<and>
   (\<exists>x. parse_then_score sorted_list_of_set sorted_list_of_set long_count_text [''docker''] 0 = Inl x \<and>
     parse_then_score rev_sorted rev_sorted long_count_text [''docker''] 0 = Inl x)"
proof -
  have n: "normalize_text ''Python and SQL'' = ''python and sql''" by code_simp
  have y: "extract_experience ''Python and SQL'' = Inr 0"
    unfolding extract_experience_def n by code_simp
  obtain c where pc: "parse sorted_list_of_set ''Python and SQL'' = Inr c"
    by (simp add: parse_def y)
  obtain score missing skill_percent where
    "calculate_score sorted_list_of_set (JobMatcher [''docker'', ''aws''] 0) c =
       (score, missing, skill_percent)"
    using prod_cases3 by blast
  then have r: "parse_then_score sorted_list_of_set sorted_list_of_set ''Python and SQL''
      [''docker'', ''aws''] 0 = Inr (c, score, missing, skill_percent)"
    by (simp add: parse_then_score_def pc)
  from results_equal_up_to_order [OF valid_sorted valid_sorted valid_rev_sorted valid_rev_sorted,
      of "''Python and SQL''" "[''docker'', ''aws'']" 0] r
  have 1: "\<exists>c score missing skill_percent skills' missing'.
     parse_then_score sorted_list_of_set sorted_list_of_set ''Python and SQL'' [''docker'', ''aws''] 0 =
       Inr (c, score, missing, skill_percent) \<and>
     parse_then_score rev_sorted rev_sorted ''Python and SQL'' [''docker'', ''aws''] 0 =
       Inr (c\<lparr>skills := skills'\<rparr>, score, missing', skill_percent) \<and>
     set skills' = set (skills c) \<and> set missing' = set missing \<and>
     distinct missing' \<and> distinct missing"
    by blast
  have "isl (extract_experience long_count_text)"
    unfolding raises_iff_long_count long_count_text_nines normalize_nines
    by (rule long_count_nines) (simp add: int_max_str_digits_def)
  then obtain x where "extract_experience long_count_text = Inl x"
    by (cases "extract_experience long_count_text") simp_all
  then have l: "parse_then_score sorted_list_of_set sorted_list_of_set long_count_text
      [''docker''] 0 = Inl x"
    by (simp add: parse_then_score_def parse_def)
  from results_equal_up_to_order [OF valid_sorted valid_sorted valid_rev_sorted valid_rev_sorted,
      of long_count_text "[''docker'']" 0] l
  have "parse_then_score rev_sorted rev_sorted long_count_text [''docker''] 0 = Inl x"
    by blast
  with l 1 show ?thesis by blast
qed

end
